theory Spec2Isabelle
  imports Main
begin

section \<open>Strings of the host language\<close>

text \<open>
  A document and a search string are sequences of code units, modelled as \<open>string\<close>.
  Offsets are non-negative, so they are natural numbers; every subtraction of the source
  that could go below zero sits under a \<open>Math.max\<close> with a non-negative bound, where the
  truncated subtraction of \<open>nat\<close> gives the same maximum.
\<close>

definition backslash :: char where
  "backslash = CHR 0x5C"

definition newline :: char where
  "newline = CHR 0x0A"

definition carriage_return :: char where
  "carriage_return = CHR 0x0D"

definition tab :: char where
  "tab = CHR 0x09"

text \<open>\<open>str.slice(a, b)\<close> for non-negative indices: clamped at the end, empty when \<open>b \<le> a\<close>.\<close>

definition slice :: "string \<Rightarrow> nat \<Rightarrow> nat \<Rightarrow> string" where
  "slice s a b = take (b - a) (drop a s)"

text \<open>
  \<open>str.replace(re, fn)\<close> for a global regular expression that matches exactly two code
  units (a fixed first unit followed by one unit of a class): the string is read left to
  right; where the two units under the scan position match, the value of the callback
  (called with the matched text and the captured second unit) is emitted and the scan
  goes on behind the match; otherwise one unit is copied.
\<close>

fun replace_g2 :: "(char \<Rightarrow> char \<Rightarrow> bool) \<Rightarrow> (string \<Rightarrow> char \<Rightarrow> string) \<Rightarrow> string \<Rightarrow> string" where
  "replace_g2 re fn (c # d # rest) =
     (if re c d then fn [c, d] d @ replace_g2 re fn rest
      else c # replace_g2 re fn (d # rest))"
| "replace_g2 re fn cs = cs"

section \<open>SearchQuery\<close>

record SearchQuery =
  search :: string
  caseSensitive :: bool
  literal :: bool
  regexp :: bool
  replace :: string
  valid :: bool
  wholeWord :: bool
  unquoted :: string

text \<open>The regular expression \<open>/\\([nrt\\])/\<close> of \<open>unquote\<close> and its callback.\<close>

definition unquote_re :: "char \<Rightarrow> char \<Rightarrow> bool" where
  "unquote_re c d \<longleftrightarrow> c = backslash \<and> d \<in> {CHR ''n'', CHR ''r'', CHR ''t'', backslash}"

definition unquote_fn :: "string \<Rightarrow> char \<Rightarrow> string" where
  "unquote_fn m ch =
     (if ch = CHR ''n'' then [newline]
      else if ch = CHR ''r'' then [carriage_return]
      else if ch = CHR ''t'' then [tab]
      else [backslash])"

definition unquote :: "SearchQuery \<Rightarrow> string \<Rightarrow> string" where
  "unquote this text =
     (if literal this then text else replace_g2 unquote_re unquote_fn text)"

text \<open>
  The argument of the constructor: every field but \<open>search\<close> is optional.
\<close>

record SearchQueryConfig =
  cfg_search :: string
  cfg_caseSensitive :: "bool option"
  cfg_literal :: "bool option"
  cfg_regexp :: "bool option"
  cfg_replace :: "string option"
  cfg_wholeWord :: "bool option"

text \<open>\<open>!!x\<close> of an optional boolean and \<open>x || ""\<close> of an optional string.\<close>

definition truthy :: "bool option \<Rightarrow> bool" where
  "truthy b = (case b of None \<Rightarrow> False | Some v \<Rightarrow> v)"

definition or_empty :: "string option \<Rightarrow> string" where
  "or_empty s = (case s of None \<Rightarrow> [] | Some v \<Rightarrow> v)"

text \<open>
  The constructor. \<open>validRegExp\<close> (imported from the regexp module, which tries to compile
  the pattern with the host's engine) is a parameter.
\<close>

definition new_SearchQuery :: "(string \<Rightarrow> bool) \<Rightarrow> SearchQueryConfig \<Rightarrow> SearchQuery" where
  "new_SearchQuery validRegExp config =
     (let this = \<lparr> search = cfg_search config,
                   caseSensitive = truthy (cfg_caseSensitive config),
                   literal = truthy (cfg_literal config),
                   regexp = truthy (cfg_regexp config),
                   replace = or_empty (cfg_replace config),
                   valid = (cfg_search config \<noteq> [] \<and>
                     (\<not> truthy (cfg_regexp config) \<or> validRegExp (cfg_search config))),
                   wholeWord = truthy (cfg_wholeWord config),
                   unquoted = [] \<rparr>
      in this\<lparr>unquoted := unquote this (search this)\<rparr>)"

text \<open>A configuration that gives the search string alone, as \<open>{search: s}\<close> does.\<close>

definition search_only :: "string \<Rightarrow> SearchQueryConfig" where
  "search_only s = \<lparr>cfg_search = s, cfg_caseSensitive = None, cfg_literal = None,
     cfg_regexp = None, cfg_replace = None, cfg_wholeWord = None\<rparr>"

definition eq :: "SearchQuery \<Rightarrow> SearchQuery \<Rightarrow> bool" where
  "eq this other \<longleftrightarrow>
     search this = search other \<and> replace this = replace other \<and>
     caseSensitive this = caseSensitive other \<and> regexp this = regexp other \<and>
     wholeWord this = wholeWord other"

section \<open>Documents, matches and editor state\<close>

datatype QueryType = StringQuery SearchQuery | RegExpQuery SearchQuery



text \<open>The search state kept in a field of the editor state: the query and whether a panel is set.\<close>

record SearchState =
  query :: QueryType
  panel :: bool

record Match =
  from_pos :: nat
  to_pos :: nat

text \<open>
  The array a regular expression's \<open>exec\<close> returns: element 0 is the whole matched text,
  the elements behind it are the groups (\<open>undefined\<close> for a group that took no part),
  \<open>index\<close> and \<open>input\<close> say where in which string the match was found.
\<close>

record RegExpExecArray =
  whole :: string
  groups :: "string option list"
  index :: nat
  input :: string

definition match_length :: "RegExpExecArray \<Rightarrow> nat" where
  "match_length m = Suc (length (groups m))"

text \<open>\<open>match[i]\<close>; reading behind the end gives \<open>undefined\<close>.\<close>

definition match_at :: "RegExpExecArray \<Rightarrow> nat \<Rightarrow> string option" where
  "match_at m i =
     (if i = 0 then Some (whole m)
      else if i - 1 < length (groups m) then groups m ! (i - 1) else None)"

text \<open>The string a replace callback's value becomes: \<open>undefined\<close> is written out.\<close>

definition js_string :: "string option \<Rightarrow> string" where
  "js_string v = (case v of None \<Rightarrow> ''undefined'' | Some s \<Rightarrow> s)"

record RegExpResult = Match +
  match :: RegExpExecArray

datatype CharCategory = Word | Space | Other

record SelectionRange = Match +
  head :: nat

record EditorSelection =
  ranges :: "SelectionRange list"
  main :: SelectionRange

text \<open>
  The part of the editor state the search reads: the document, the selection, the
  read-only flag, the host's character categorizer (a function of a position and of
  a string of one character cluster, or the empty string at an end of the text) and the
  search state field, which is absent until the search extension is configured.
\<close>

record EditorState =
  doc :: string
  selection :: EditorSelection
  readOnly :: bool
  charCategorizer :: "nat \<Rightarrow> string \<Rightarrow> CharCategory"
  searchState :: "SearchState option"

definition sliceString :: "string \<Rightarrow> nat \<Rightarrow> nat \<Rightarrow> string" where
  "sliceString text a b = slice text a b"

text \<open>\<open>x.toLowerCase()\<close> on the code units of the model: the letters A to Z are folded.\<close>

definition toLowerCase :: "string \<Rightarrow> string" where
  "toLowerCase x =
     map (\<lambda>c. if 65 \<le> (of_char c :: nat) \<and> (of_char c :: nat) \<le> 90
              then char_of ((of_char c :: nat) + 32) else c) x"

text \<open>
  \<open>findClusterBreak\<close> of the host library, on a text in which every code unit is a
  cluster of its own: the next break after (or before) the index, clamped to the string.
\<close>

definition findClusterBreak :: "string \<Rightarrow> nat \<Rightarrow> bool \<Rightarrow> nat" where
  "findClusterBreak str i forward = (if forward then min (length str) (i + 1) else i - 1)"

definition charBefore :: "string \<Rightarrow> nat \<Rightarrow> string" where
  "charBefore str i = slice str (findClusterBreak str i False) i"

definition charAfter :: "string \<Rightarrow> nat \<Rightarrow> string" where
  "charAfter str i = slice str i (findClusterBreak str i True)"

section \<open>The literal cursor\<close>

text \<open>
  Modelled from the spec: the class SearchCursor (module cursor) is not among the
  sources; only its declaration is. The model follows the specification's contract of
  the literal cursor: it scans a half-open range of the source for the normalized search
  string, compares normalized text with the normalized pattern, asks the boundary test
  (when there is one) about every full match, reports only matches that lie within the
  range, and goes on behind the end of the last match (\<open>next\<close>) or one unit behind its
  start (\<open>nextOverlapping\<close>). The window handed to the boundary test is the whole source
  text, at offset 0. An empty search string matches nowhere.
\<close>

record SearchCursor =
  sc_text :: string
  sc_query :: string
  sc_to :: nat
  sc_normalize :: "string \<Rightarrow> string"
  sc_test :: "(nat \<Rightarrow> nat \<Rightarrow> string \<Rightarrow> nat \<Rightarrow> bool) option"
  sc_pos :: nat
  sc_value :: Match
  sc_done :: bool

definition new_SearchCursor ::
  "string \<Rightarrow> string \<Rightarrow> nat \<Rightarrow> nat \<Rightarrow> (string \<Rightarrow> string) option \<Rightarrow>
   (nat \<Rightarrow> nat \<Rightarrow> string \<Rightarrow> nat \<Rightarrow> bool) option \<Rightarrow> SearchCursor" where
  "new_SearchCursor text pattern from to normalize_opt test_opt =
     (let norm = (case normalize_opt of None \<Rightarrow> (\<lambda>x. x) | Some f \<Rightarrow> f) in
      \<lparr> sc_text = text, sc_query = norm pattern, sc_to = to, sc_normalize = norm,
        sc_test = test_opt, sc_pos = from,
        sc_value = \<lparr>from_pos = 0, to_pos = 0\<rparr>, sc_done = False \<rparr>)"

text \<open>A match starts at \<open>p\<close>: also within the range and the text, and accepted by the test.\<close>

definition matches_at :: "SearchCursor \<Rightarrow> nat \<Rightarrow> bool" where
  "matches_at c p \<longleftrightarrow>
     sc_query c \<noteq> [] \<and>
     p + length (sc_query c) \<le> min (sc_to c) (length (sc_text c)) \<and>
     sc_normalize c (sliceString (sc_text c) p (p + length (sc_query c))) = sc_query c \<and>
     (case sc_test c of None \<Rightarrow> True
      | Some t \<Rightarrow> t p (p + length (sc_query c)) (sc_text c) 0)"

definition nextOverlapping :: "SearchCursor \<Rightarrow> SearchCursor" where
  "nextOverlapping c =
     (if sc_done c then c
      else case find (matches_at c) [sc_pos c ..< Suc (sc_to c)] of
        None \<Rightarrow> c\<lparr>sc_done := True\<rparr>
      | Some p \<Rightarrow> c\<lparr>sc_value := \<lparr>from_pos = p, to_pos = p + length (sc_query c)\<rparr>,
                    sc_pos := p + 1\<rparr>)"

definition next_match :: "SearchCursor \<Rightarrow> SearchCursor" where
  "next_match c = nextOverlapping (c\<lparr>sc_pos := max (sc_pos c) (to_pos (sc_value c))\<rparr>)"

section \<open>The regular expression cursor\<close>

text \<open>
  The class RegExpCursor (module regexp) is not among the sources either, and it runs
  the host's regular expression engine. It enters the model as a parameter: the finite
  sequence of results that successive calls of \<open>next\<close> yield for a text, a pattern, the
  options and a range. The cursor object holds what is still to come.
\<close>

record RegExpCursorOptions =
  ignoreCase :: bool
  test :: "(nat \<Rightarrow> nat \<Rightarrow> RegExpExecArray \<Rightarrow> bool) option"

type_synonym RegExpEngine =
  "string \<Rightarrow> string \<Rightarrow> RegExpCursorOptions \<Rightarrow> nat \<Rightarrow> nat \<Rightarrow> RegExpResult list"

record RegExpCursor =
  rc_pending :: "RegExpResult list"
  rc_value :: "RegExpResult option"
  rc_done :: bool

definition new_RegExpCursor ::
  "RegExpEngine \<Rightarrow> string \<Rightarrow> string \<Rightarrow> RegExpCursorOptions \<Rightarrow> nat \<Rightarrow> nat \<Rightarrow> RegExpCursor" where
  "new_RegExpCursor engine text pattern options from to =
     \<lparr> rc_pending = engine text pattern options from to, rc_value = None, rc_done = False \<rparr>"

definition rc_next :: "RegExpCursor \<Rightarrow> RegExpCursor" where
  "rc_next c =
     (case rc_pending c of
        [] \<Rightarrow> c\<lparr>rc_done := True\<rparr>
      | r # rs \<Rightarrow> c\<lparr>rc_value := Some r, rc_pending := rs\<rparr>)"

section \<open>Query types\<close>

text \<open>
  Every operation returns its value together with the ranges of the cursors it has
  constructed, in the order of construction.
\<close>

type_synonym CursorLog = "(nat \<times> nat) list"

definition ChunkSize :: nat where
  "ChunkSize = 10000"


definition stringWordTest ::
  "string \<Rightarrow> (string \<Rightarrow> CharCategory) \<Rightarrow> nat \<Rightarrow> nat \<Rightarrow> string \<Rightarrow> nat \<Rightarrow> bool" where
  "stringWordTest text categorizer from to buf bufPos =
     (let (bufPos', buf') =
            (if bufPos > from \<or> bufPos + length buf < to
             then (max 0 (from - 2), sliceString text (max 0 (from - 2)) (min (length text) (to + 2)))
             else (bufPos, buf))
      in (categorizer (charBefore buf' (from - bufPos')) \<noteq> Word \<or>
          categorizer (charAfter buf' (from - bufPos')) \<noteq> Word) \<and>
         (categorizer (charAfter buf' (to - bufPos')) \<noteq> Word \<or>
          categorizer (charBefore buf' (to - bufPos')) \<noteq> Word))"

definition stringCursor :: "SearchQuery \<Rightarrow> EditorState \<Rightarrow> nat \<Rightarrow> nat \<Rightarrow> SearchCursor" where
  "stringCursor sp state from to =
     new_SearchCursor (doc state) (unquoted sp) from to
       (if caseSensitive sp then None else Some toLowerCase)
       (if wholeWord sp
        then Some (stringWordTest (doc state)
                     (charCategorizer state (head (main (selection state)))))
        else None)"

definition regexpWordTest ::
  "(string \<Rightarrow> CharCategory) \<Rightarrow> nat \<Rightarrow> nat \<Rightarrow> RegExpExecArray \<Rightarrow> bool" where
  "regexpWordTest categorizer from to m \<longleftrightarrow>
     length (whole m) = 0 \<or>
     (categorizer (charBefore (input m) (index m)) \<noteq> Word \<or>
      categorizer (charAfter (input m) (index m)) \<noteq> Word) \<and>
     (categorizer (charAfter (input m) (index m + length (whole m))) \<noteq> Word \<or>
      categorizer (charBefore (input m) (index m + length (whole m))) \<noteq> Word)"

definition regexpCursor ::
  "RegExpEngine \<Rightarrow> SearchQuery \<Rightarrow> EditorState \<Rightarrow> nat \<Rightarrow> nat \<Rightarrow> RegExpCursor" where
  "regexpCursor engine sp state from to =
     new_RegExpCursor engine (doc state) (search sp)
       \<lparr> ignoreCase = \<not> caseSensitive sp,
         test = (if wholeWord sp
                 then Some (regexpWordTest (charCategorizer state (head (main (selection state)))))
                 else None) \<rparr>
       from to"

subsection \<open>StringQuery\<close>

lemma find_upt_bounds: "find P [a ..< b] = Some p \<Longrightarrow> a \<le> p \<and> p < b"
  by (auto simp: find_Some_iff)

lemma nextOverlapping_progress:
  "\<not> sc_done (nextOverlapping c) \<Longrightarrow>
   sc_to (nextOverlapping c) = sc_to c \<and> sc_pos c < sc_pos (nextOverlapping c) \<and>
   sc_pos (nextOverlapping c) \<le> Suc (sc_to c)"
proof -
  assume nd: "\<not> sc_done (nextOverlapping c)"
  then obtain p where p: "find (matches_at c) [sc_pos c ..< Suc (sc_to c)] = Some p"
    by (cases "find (matches_at c) [sc_pos c ..< Suc (sc_to c)]")
       (auto simp: nextOverlapping_def split: if_splits)
  from find_upt_bounds [OF p] have "sc_pos c \<le> p" "p < Suc (sc_to c)" by auto
  moreover from nd p have "sc_pos (nextOverlapping c) = p + 1" "sc_to (nextOverlapping c) = sc_to c"
    by (auto simp: nextOverlapping_def split: if_splits)
  ultimately show ?thesis by simp
qed

lemma next_match_progress:
  "\<not> sc_done (next_match c) \<Longrightarrow>
   sc_to (next_match c) = sc_to c \<and> sc_pos c < sc_pos (next_match c) \<and>
   sc_pos (next_match c) \<le> Suc (sc_to c)"
  using nextOverlapping_progress [of "c\<lparr>sc_pos := max (sc_pos c) (to_pos (sc_value c))\<rparr>"]
  by (auto simp: next_match_def)

definition StringQuery_nextMatch ::
  "SearchQuery \<Rightarrow> EditorState \<Rightarrow> nat \<Rightarrow> nat \<Rightarrow> Match option \<times> CursorLog" where
  "StringQuery_nextMatch sp state curFrom curTo =
     (let cursor = nextOverlapping (stringCursor sp state curTo (length (doc state)));
          cl = [(curTo, length (doc state))];
          (cursor, cl) =
            (if sc_done cursor
             then (nextOverlapping (stringCursor sp state 0 curFrom), cl @ [(0, curFrom)])
             else (cursor, cl))
      in (if sc_done cursor then None else Some (sc_value cursor), cl))"

text \<open>\<open>while (!cursor.nextOverlapping().done) rng = cursor.value\<close>\<close>

function last_overlapping :: "SearchCursor \<Rightarrow> Match option \<Rightarrow> Match option" where
  "last_overlapping cursor rng =
     (let cursor' = nextOverlapping cursor in
      if sc_done cursor' then rng else last_overlapping cursor' (Some (sc_value cursor')))"
  by pat_completeness auto
termination
  by (relation "measure (\<lambda>(c, r). Suc (sc_to c) - sc_pos c)")
     (auto dest!: nextOverlapping_progress)

function StringQuery_prevMatchInRange_loop ::
  "SearchQuery \<Rightarrow> EditorState \<Rightarrow> nat \<Rightarrow> nat \<Rightarrow> Match option \<times> CursorLog" where
  "StringQuery_prevMatchInRange_loop sp state from pos =
     (let start = max from (pos - ChunkSize - length (unquoted sp));
          rng = last_overlapping (stringCursor sp state start pos) None
      in case rng of
           Some r \<Rightarrow> (Some r, [(start, pos)])
         | None \<Rightarrow>
             if start = from then (None, [(start, pos)])
             else (case StringQuery_prevMatchInRange_loop sp state from (pos - ChunkSize) of
                     (r, cl) \<Rightarrow> (r, (start, pos) # cl)))"
  by pat_completeness auto
termination
  by (relation "measure (\<lambda>(sp, state, from, pos). pos)") (auto simp: ChunkSize_def)



definition StringQuery_getReplacement :: "SearchQuery \<Rightarrow> 'a Match_scheme \<Rightarrow> string" where
  "StringQuery_getReplacement sp result = unquote sp (replace sp)"

function StringQuery_matchAll_loop ::
  "SearchCursor \<Rightarrow> nat \<Rightarrow> Match list \<Rightarrow> Match list option" where
  "StringQuery_matchAll_loop cursor limit found =
     (let cursor' = next_match cursor in
      if sc_done cursor' then Some found
      else if length found \<ge> limit then None
      else StringQuery_matchAll_loop cursor' limit (found @ [sc_value cursor']))"
  by pat_completeness auto
termination
  by (relation "measure (\<lambda>(c, l, r). Suc (sc_to c) - sc_pos c)")
     (auto dest!: next_match_progress)

definition StringQuery_matchAll ::
  "SearchQuery \<Rightarrow> EditorState \<Rightarrow> nat \<Rightarrow> Match list option \<times> CursorLog" where
  "StringQuery_matchAll sp state limit =
     (StringQuery_matchAll_loop (stringCursor sp state 0 (length (doc state))) limit [],
      [(0, length (doc state))])"

text \<open>\<open>while (!cursor.next().done) add(cursor.value.from, cursor.value.to)\<close>\<close>

function StringQuery_highlight_loop ::
  "SearchCursor \<Rightarrow> (nat \<Rightarrow> nat \<Rightarrow> 'b \<Rightarrow> 'b) \<Rightarrow> 'b \<Rightarrow> 'b" where
  "StringQuery_highlight_loop cursor add acc =
     (let cursor' = next_match cursor in
      if sc_done cursor' then acc
      else StringQuery_highlight_loop cursor' add
             (add (from_pos (sc_value cursor')) (to_pos (sc_value cursor')) acc))"
  by pat_completeness auto
termination
  by (relation "measure (\<lambda>(c, a, r). Suc (sc_to c) - sc_pos c)")
     (auto dest!: next_match_progress)


subsection \<open>RegExpQuery\<close>

lemma rc_next_progress:
  "\<not> rc_done (rc_next c) \<Longrightarrow> length (rc_pending (rc_next c)) < length (rc_pending c)"
  by (cases "rc_pending c") (auto simp: rc_next_def)

definition RegExpQuery_nextMatch ::
  "RegExpEngine \<Rightarrow> SearchQuery \<Rightarrow> EditorState \<Rightarrow> nat \<Rightarrow> nat \<Rightarrow> RegExpResult option \<times> CursorLog" where
  "RegExpQuery_nextMatch engine sp state curFrom curTo =
     (let cursor = rc_next (regexpCursor engine sp state curTo (length (doc state)));
          cl = [(curTo, length (doc state))];
          (cursor, cl) =
            (if rc_done cursor
             then (rc_next (regexpCursor engine sp state 0 curFrom), cl @ [(0, curFrom)])
             else (cursor, cl))
      in (if rc_done cursor then None else rc_value cursor, cl))"

text \<open>\<open>while (!cursor.next().done) range = cursor.value\<close>\<close>

function rc_last :: "RegExpCursor \<Rightarrow> RegExpResult option \<Rightarrow> RegExpResult option" where
  "rc_last cursor rng =
     (let cursor' = rc_next cursor in
      if rc_done cursor' then rng else rc_last cursor' (rc_value cursor'))"
  by pat_completeness auto
termination
  by (relation "measure (\<lambda>(c, r). length (rc_pending c))") (auto dest!: rc_next_progress)

function RegExpQuery_prevMatchInRange_loop ::
  "RegExpEngine \<Rightarrow> SearchQuery \<Rightarrow> EditorState \<Rightarrow> nat \<Rightarrow> nat \<Rightarrow> nat \<Rightarrow>
   RegExpResult option \<times> CursorLog" where
  "RegExpQuery_prevMatchInRange_loop engine sp state from to sz =
     (let start = max from (to - sz * ChunkSize);
          rng = rc_last (regexpCursor engine sp state start to) None
      in if (case rng of None \<Rightarrow> False
             | Some r \<Rightarrow> start = from \<or> from_pos r > start + 10)
         then (rng, [(start, to)])
         else if start = from then (None, [(start, to)])
         else (case RegExpQuery_prevMatchInRange_loop engine sp state from to (sz + 1) of
                 (r, cl) \<Rightarrow> (r, (start, to) # cl)))"
  by pat_completeness auto
termination
  by (relation "measure (\<lambda>(engine, sp, state, from, to, sz). to - sz * ChunkSize)")
     (auto simp: ChunkSize_def)

definition RegExpQuery_prevMatchInRange ::
  "RegExpEngine \<Rightarrow> SearchQuery \<Rightarrow> EditorState \<Rightarrow> nat \<Rightarrow> nat \<Rightarrow> RegExpResult option \<times> CursorLog" where
  "RegExpQuery_prevMatchInRange engine sp state from to =
     RegExpQuery_prevMatchInRange_loop engine sp state from to 1"


text \<open>
  The regular expression \<open>/\$([$&\d+])/\<close> of \<open>getReplacement\<close>: a dollar sign followed by
  one unit of the class, which holds the dollar sign, the ampersand, the ten digits and
  the plus sign.
\<close>

definition is_digit :: "char \<Rightarrow> bool" where
  "is_digit d \<longleftrightarrow> 48 \<le> (of_char d :: nat) \<and> (of_char d :: nat) \<le> 57"

definition dollar_re :: "char \<Rightarrow> char \<Rightarrow> bool" where
  "dollar_re c d \<longleftrightarrow>
     c = CHR ''$'' \<and> (d = CHR ''$'' \<or> d = CHR ''&'' \<or> is_digit d \<or> d = CHR ''+'')"

text \<open>\<open>+i\<close> for a unit of that class: the digit's number, and NaN (here \<open>None\<close>) for a sign.\<close>

definition unary_plus :: "char \<Rightarrow> nat option" where
  "unary_plus i = (if is_digit i then Some ((of_char i :: nat) - 48) else None)"

definition dollar_fn :: "RegExpResult \<Rightarrow> string \<Rightarrow> char \<Rightarrow> string" where
  "dollar_fn result m i =
     (if i = CHR ''$'' then ''$''
      else if i = CHR ''&'' then js_string (match_at (match result) 0)
      else case unary_plus i of
             Some n \<Rightarrow>
               if i \<noteq> CHR ''0'' \<and> n < match_length (match result)
               then js_string (match_at (match result) n) else m
           | None \<Rightarrow> m)"

text \<open>\<open>template.replace(/\$([$&\d+])/g, (m, i) => ...)\<close>, the inner pass of \<open>getReplacement\<close>.\<close>

definition expand_dollars :: "RegExpResult \<Rightarrow> string \<Rightarrow> string" where
  "expand_dollars result template = replace_g2 dollar_re (dollar_fn result) template"

definition RegExpQuery_getReplacement :: "SearchQuery \<Rightarrow> RegExpResult \<Rightarrow> string" where
  "RegExpQuery_getReplacement sp result = unquote sp (expand_dollars result (replace sp))"

text \<open>The code unit of the decimal digit \<open>k\<close>.\<close>

definition digit_char :: "nat \<Rightarrow> char" where
  "digit_char k = char_of (48 + k)"

function RegExpQuery_matchAll_loop ::
  "RegExpCursor \<Rightarrow> nat \<Rightarrow> RegExpResult list \<Rightarrow> RegExpResult list option" where
  "RegExpQuery_matchAll_loop cursor limit found =
     (let cursor' = rc_next cursor in
      if rc_done cursor' then Some found
      else if length found \<ge> limit then None
      else RegExpQuery_matchAll_loop cursor' limit (found @ (case rc_value cursor' of None \<Rightarrow> [] | Some r \<Rightarrow> [r])))"
  by pat_completeness auto
termination
  by (relation "measure (\<lambda>(c, l, r). length (rc_pending c))") (auto dest!: rc_next_progress)

definition RegExpQuery_matchAll ::
  "RegExpEngine \<Rightarrow> SearchQuery \<Rightarrow> EditorState \<Rightarrow> nat \<Rightarrow> RegExpResult list option \<times> CursorLog" where
  "RegExpQuery_matchAll engine sp state limit =
     (RegExpQuery_matchAll_loop (regexpCursor engine sp state 0 (length (doc state))) limit [],
      [(0, length (doc state))])"

function RegExpQuery_highlight_loop ::
  "RegExpCursor \<Rightarrow> (nat \<Rightarrow> nat \<Rightarrow> 'b \<Rightarrow> 'b) \<Rightarrow> 'b \<Rightarrow> 'b" where
  "RegExpQuery_highlight_loop cursor add acc =
     (let cursor' = rc_next cursor in
      if rc_done cursor' then acc
      else RegExpQuery_highlight_loop cursor' add
             (case rc_value cursor' of None \<Rightarrow> acc
              | Some r \<Rightarrow> add (from_pos r) (to_pos r) acc))"
  by pat_completeness auto
termination
  by (relation "measure (\<lambda>(c, a, r). length (rc_pending c))") (auto dest!: rc_next_progress)


subsection \<open>Dispatch on the query type\<close>

text \<open>
  The abstract class's operations, with the result of a regular expression query cut
  down to its range where both kinds of result are handled alike.
\<close>

definition cut :: "RegExpResult option \<times> CursorLog \<Rightarrow> Match option \<times> CursorLog" where
  "cut r = (map_option Match.truncate (fst r), snd r)"

fun nextMatch ::
  "RegExpEngine \<Rightarrow> QueryType \<Rightarrow> EditorState \<Rightarrow> nat \<Rightarrow> nat \<Rightarrow> Match option \<times> CursorLog" where
  "nextMatch engine (StringQuery sp) state curFrom curTo =
     StringQuery_nextMatch sp state curFrom curTo"
| "nextMatch engine (RegExpQuery sp) state curFrom curTo =
     cut (RegExpQuery_nextMatch engine sp state curFrom curTo)"


fun matchAll ::
  "RegExpEngine \<Rightarrow> QueryType \<Rightarrow> EditorState \<Rightarrow> nat \<Rightarrow> Match list option \<times> CursorLog" where
  "matchAll engine (StringQuery sp) state limit = StringQuery_matchAll sp state limit"
| "matchAll engine (RegExpQuery sp) state limit =
     (case RegExpQuery_matchAll engine sp state limit of
        (r, cl) \<Rightarrow> (map_option (map Match.truncate) r, cl))"


section \<open>Commands and the highlighter\<close>















section \<open>What a forward scan yields\<close>

text \<open>
  The matches a literal cursor yields when it is drained by \<open>nextOverlapping\<close> and by
  \<open>next\<close>, and the matches a forward scan of a range yields for a query: for a literal query
  the overlapping scan that \<open>nextMatch\<close> and \<open>prevMatch\<close> run, for a regular expression
  query the sequence of the regular expression cursor.
\<close>

function drain_overlapping :: "SearchCursor \<Rightarrow> Match list" where
  "drain_overlapping c =
     (let c' = nextOverlapping c in
      if sc_done c' then [] else sc_value c' # drain_overlapping c')"
  by pat_completeness auto
termination
  by (relation "measure (\<lambda>c. Suc (sc_to c) - sc_pos c)") (auto dest!: nextOverlapping_progress)

function drain_next :: "SearchCursor \<Rightarrow> Match list" where
  "drain_next c =
     (let c' = next_match c in
      if sc_done c' then [] else sc_value c' # drain_next c')"
  by pat_completeness auto
termination
  by (relation "measure (\<lambda>c. Suc (sc_to c) - sc_pos c)") (auto dest!: next_match_progress)

fun forward_scan :: "RegExpEngine \<Rightarrow> QueryType \<Rightarrow> EditorState \<Rightarrow> nat \<Rightarrow> nat \<Rightarrow> Match list" where
  "forward_scan engine (StringQuery sp) state a b =
     drain_overlapping (stringCursor sp state a b)"
| "forward_scan engine (RegExpQuery sp) state a b =
     map Match.truncate (rc_pending (regexpCursor engine sp state a b))"

text \<open>The results a regular expression cursor over a range holds when it is constructed.\<close>

definition regexp_scan ::
  "RegExpEngine \<Rightarrow> SearchQuery \<Rightarrow> EditorState \<Rightarrow> nat \<Rightarrow> nat \<Rightarrow> RegExpResult list" where
  "regexp_scan engine sp state a b = rc_pending (regexpCursor engine sp state a b)"

text \<open>The matches of the whole document in the order \<open>matchAll\<close> meets them.\<close>

fun all_matches :: "RegExpEngine \<Rightarrow> QueryType \<Rightarrow> EditorState \<Rightarrow> Match list" where
  "all_matches engine (StringQuery sp) state =
     drain_next (stringCursor sp state 0 (length (doc state)))"
| "all_matches engine (RegExpQuery sp) state =
     map Match.truncate (rc_pending (regexpCursor engine sp state 0 (length (doc state))))"

text \<open>
  An occurrence of a literal query's search string at offset \<open>p\<close> that ends at or before
  \<open>b\<close>: the normalized text of the pattern's length at \<open>p\<close> equals the normalized pattern
  (both case-folded unless the query is case-sensitive), and the whole-word test accepts
  it when the query asks for whole words.
\<close>

definition occurs :: "SearchQuery \<Rightarrow> EditorState \<Rightarrow> nat \<Rightarrow> nat \<Rightarrow> bool" where
  "occurs sp state b p \<longleftrightarrow>
     (let norm = (if caseSensitive sp then (\<lambda>x. x) else toLowerCase);
          q = norm (unquoted sp)
      in q \<noteq> [] \<and> p + length q \<le> min b (length (doc state)) \<and>
         norm (sliceString (doc state) p (p + length q)) = q \<and>
         (if wholeWord sp
          then stringWordTest (doc state) (charCategorizer state (head (main (selection state))))
                 p (p + length q) (doc state) 0
          else True))"

text \<open>The length of the normalized search string, which is the length of every match.\<close>

definition pattern_length :: "SearchQuery \<Rightarrow> nat" where
  "pattern_length sp =
     length ((if caseSensitive sp then (\<lambda>x. x) else toLowerCase) (unquoted sp))"

definition match_of :: "SearchQuery \<Rightarrow> nat \<Rightarrow> Match" where
  "match_of sp p = \<lparr>from_pos = p, to_pos = p + pattern_length sp\<rparr>"



section \<open>Example inputs\<close>

text \<open>
  A categorizer for ASCII text (letters, digits and the underscore are word characters),
  an editor state that holds a document with the cursor at its start and no search
  state, queries built from a search string (with the default flags, and case-sensitive
  ones), and two regular expression engines: one for a pattern that matches nowhere, and
  one for a pattern without metacharacters, whose matches are the non-overlapping
  occurrences of the pattern from the start of the range on, the same sequence a literal
  cursor yields under \<open>next\<close>, less the matches the options' test rejects.
\<close>

definition ascii_categorizer :: "nat \<Rightarrow> string \<Rightarrow> CharCategory" where
  "ascii_categorizer pos s =
     (case s of
        [c] \<Rightarrow>
          (let n = (of_char c :: nat) in
           if (48 \<le> n \<and> n \<le> 57) \<or> (65 \<le> n \<and> n \<le> 90) \<or> (97 \<le> n \<and> n \<le> 122) \<or> n = 95
           then Word
           else if n = 32 \<or> (9 \<le> n \<and> n \<le> 13) then Space else Other)
      | _ \<Rightarrow> Other)"

definition state_of :: "string \<Rightarrow> EditorState" where
  "state_of text =
     \<lparr> doc = text,
       selection = \<lparr> ranges = [\<lparr>from_pos = 0, to_pos = 0, head = 0\<rparr>],
                     main = \<lparr>from_pos = 0, to_pos = 0, head = 0\<rparr> \<rparr>,
       readOnly = False, charCategorizer = ascii_categorizer, searchState = None \<rparr>"

definition no_engine :: RegExpEngine where
  "no_engine text pattern options from to = []"

definition literal_engine :: RegExpEngine where
  "literal_engine text pattern options from to =
     filter (\<lambda>r. case test options of None \<Rightarrow> True
                 | Some t \<Rightarrow> t (from_pos r) (to_pos r) (match r))
       (map (\<lambda>m. \<lparr>from_pos = from_pos m, to_pos = to_pos m,
                   match = \<lparr>whole = slice text (from_pos m) (to_pos m), groups = [],
                             index = from_pos m, input = text\<rparr>\<rparr>)
          (drain_next (new_SearchCursor text pattern from to
             (if ignoreCase options then Some toLowerCase else None) None)))"

definition literal_query :: "string \<Rightarrow> SearchQuery" where
  "literal_query s = new_SearchQuery (\<lambda>_. True) (search_only s)"

definition exact_query :: "string \<Rightarrow> SearchQuery" where
  "exact_query s =
     new_SearchQuery (\<lambda>_. True) ((search_only s)\<lparr>cfg_caseSensitive := Some True\<rparr>)"

definition exact_regexp_query :: "string \<Rightarrow> SearchQuery" where
  "exact_regexp_query s =
     new_SearchQuery (\<lambda>_. True)
       ((search_only s)\<lparr>cfg_caseSensitive := Some True, cfg_regexp := Some True\<rparr>)"

definition regexp_query :: "string \<Rightarrow> SearchQuery" where
  "regexp_query s = new_SearchQuery (\<lambda>_. True) ((search_only s)\<lparr>cfg_regexp := Some True\<rparr>)"

section \<open>Theorems\<close>

subsection \<open>Escape expansion\<close>

lemma replace_g2_no_first:
  "(\<And>c d. re c d \<Longrightarrow> c = c0) \<Longrightarrow> c0 \<notin> set s \<Longrightarrow> replace_g2 re fn s = s"
  by (induction re fn s rule: replace_g2.induct) auto

lemma unquote_re_first: "unquote_re c d \<Longrightarrow> c = backslash"
  by (simp add: unquote_re_def)

text \<open>
  C10. Unless the query is literal, \<open>unquote\<close> reads the text left to right and replaces
  backslash-n, backslash-r and backslash-t by newline, carriage return and tab, and also
  a doubled backslash by one backslash; any other unit is copied as it is, so a text
  without a backslash is unchanged. A literal query returns the text unchanged.
\<close>

theorem unquote_expands:
  "(literal q \<longrightarrow> unquote q text = text) \<and>
   (\<not> literal q \<longrightarrow>
      unquote q (backslash # CHR ''n'' # rest) = newline # unquote q rest \<and>
      unquote q (backslash # CHR ''r'' # rest) = carriage_return # unquote q rest \<and>
      unquote q (backslash # CHR ''t'' # rest) = tab # unquote q rest \<and>
      unquote q (backslash # backslash # rest) = backslash # unquote q rest \<and>
      (c \<noteq> backslash \<or> d \<notin> {CHR ''n'', CHR ''r'', CHR ''t'', backslash} \<longrightarrow>
         unquote q (c # d # rest) = c # unquote q (d # rest)) \<and>
      unquote q [c] = [c] \<and> unquote q [] = [] \<and>
      (backslash \<notin> set text \<longrightarrow> unquote q text = text))"
proof -
  have "backslash \<notin> set text \<Longrightarrow> replace_g2 unquote_re unquote_fn text = text"
    by (rule replace_g2_no_first [where ?c0.0 = backslash]) (auto dest: unquote_re_first)
  then show ?thesis
    by (auto simp: unquote_def unquote_re_def unquote_fn_def backslash_def)
qed

theorem unquote_expands_witness:
  "\<not> literal (new_SearchQuery (\<lambda>_. True) (search_only ''a'')) \<and>
   unquote (new_SearchQuery (\<lambda>_. True) (search_only ''a''))
     [backslash, CHR ''n'', CHR ''x'', backslash, backslash, CHR ''n'', backslash, CHR ''q'']
   = [newline, CHR ''x'', backslash, CHR ''n'', backslash, CHR ''q''] \<and>
   CHR ''x'' \<noteq> backslash \<and>
   unquote (new_SearchQuery (\<lambda>_. True) (search_only ''a'')) ''xyz'' = ''xyz'' \<and>
   literal (new_SearchQuery (\<lambda>_. True) ((search_only ''a'')\<lparr>cfg_literal := Some True\<rparr>)) \<and>
   unquote (new_SearchQuery (\<lambda>_. True) ((search_only ''a'')\<lparr>cfg_literal := Some True\<rparr>))
     [backslash, CHR ''n''] = [backslash, CHR ''n'']"
  using unquote_expands [of "new_SearchQuery (\<lambda>_. True) (search_only ''a'')" "''xyz''"
      "[CHR ''x'', backslash, backslash, CHR ''n'', backslash, CHR ''q'']" "CHR ''x''" "CHR ''y''"]
    unquote_expands [of "new_SearchQuery (\<lambda>_. True) ((search_only ''a'')\<lparr>cfg_literal := Some True\<rparr>)"
      "[backslash, CHR ''n'']"]
  by (simp add: new_SearchQuery_def search_only_def truthy_def or_empty_def unquote_def
      unquote_re_def unquote_fn_def backslash_def Let_def)

subsection \<open>Equality of queries\<close>

text \<open>
  C1 (as stated): two queries that differ in the literal flag alone are equal for \<open>eq\<close>,
  although their unquoted search strings differ.
\<close>

theorem eq_six_fields_counterexample:
  "eq (new_SearchQuery (\<lambda>_. True) (search_only [backslash, CHR ''n'']))
      (new_SearchQuery (\<lambda>_. True) ((search_only [backslash, CHR ''n''])\<lparr>cfg_literal := Some True\<rparr>)) \<and>
   literal (new_SearchQuery (\<lambda>_. True) (search_only [backslash, CHR ''n'']))
   \<noteq> literal (new_SearchQuery (\<lambda>_. True)
         ((search_only [backslash, CHR ''n''])\<lparr>cfg_literal := Some True\<rparr>)) \<and>
   unquoted (new_SearchQuery (\<lambda>_. True) (search_only [backslash, CHR ''n''])) = [newline] \<and>
   unquoted (new_SearchQuery (\<lambda>_. True)
         ((search_only [backslash, CHR ''n''])\<lparr>cfg_literal := Some True\<rparr>))
     = [backslash, CHR ''n'']"
  by (simp add: eq_def new_SearchQuery_def search_only_def truthy_def or_empty_def unquote_def
      unquote_re_def unquote_fn_def Let_def)

text \<open>
  C1 (amended): \<open>eq\<close> holds exactly when the search string, the replacement and the
  caseSensitive, regexp and wholeWord flags agree; the literal flag is not compared. For
  queries built by the constructor this is agreement of the five configuration entries
  after their defaults.
\<close>

theorem eq_five_fields:
  "(eq q1 q2 \<longleftrightarrow>
      search q1 = search q2 \<and> replace q1 = replace q2 \<and> caseSensitive q1 = caseSensitive q2 \<and>
      regexp q1 = regexp q2 \<and> wholeWord q1 = wholeWord q2) \<and>
   (eq (q1\<lparr>literal := l1\<rparr>) (q2\<lparr>literal := l2\<rparr>) \<longleftrightarrow> eq q1 q2) \<and>
   (eq (new_SearchQuery v c1) (new_SearchQuery v c2) \<longleftrightarrow>
      cfg_search c1 = cfg_search c2 \<and>
      or_empty (cfg_replace c1) = or_empty (cfg_replace c2) \<and>
      truthy (cfg_caseSensitive c1) = truthy (cfg_caseSensitive c2) \<and>
      truthy (cfg_regexp c1) = truthy (cfg_regexp c2) \<and>
      truthy (cfg_wholeWord c1) = truthy (cfg_wholeWord c2))"
  by (simp add: eq_def new_SearchQuery_def Let_def)

theorem eq_five_fields_witness:
  "eq (new_SearchQuery (\<lambda>_. True) (search_only ''ab''))
      (new_SearchQuery (\<lambda>_. True) ((search_only ''ab'')\<lparr>cfg_literal := Some True\<rparr>)) \<and>
   \<not> eq (new_SearchQuery (\<lambda>_. True) (search_only ''ab''))
      (new_SearchQuery (\<lambda>_. True) ((search_only ''ab'')\<lparr>cfg_wholeWord := Some True\<rparr>))"
  using eq_five_fields [of "new_SearchQuery (\<lambda>_. True) (search_only ''ab'')"
      "new_SearchQuery (\<lambda>_. True) ((search_only ''ab'')\<lparr>cfg_literal := Some True\<rparr>)"]
    eq_five_fields [of "new_SearchQuery (\<lambda>_. True) (search_only ''ab'')"
      "new_SearchQuery (\<lambda>_. True) ((search_only ''ab'')\<lparr>cfg_wholeWord := Some True\<rparr>)"]
  by (simp add: new_SearchQuery_def search_only_def truthy_def or_empty_def Let_def)

subsection \<open>Replacement templates\<close>

lemma digit_char_facts:
  "k \<le> 9 \<Longrightarrow> is_digit (digit_char k) \<and> unary_plus (digit_char k) = Some k \<and>
     digit_char k \<noteq> CHR ''$'' \<and> digit_char k \<noteq> CHR ''&'' \<and>
     (digit_char k = CHR ''0'' \<longleftrightarrow> k = 0)"
proof -
  assume k: "k \<le> 9"
  then have oc: "(of_char (digit_char k) :: nat) = 48 + k"
    by (simp add: digit_char_def)
  have eq: "digit_char k = c \<longleftrightarrow> (of_char (digit_char k) :: nat) = of_char c" for c
    by (rule of_char_eq_iff [symmetric])
  from oc k show ?thesis
    by (auto simp: is_digit_def unary_plus_def eq)
qed

lemma expand_dollars_Cons:
  "c \<noteq> CHR ''$'' \<Longrightarrow> expand_dollars r (c # t) = c # expand_dollars r t"
  by (cases t) (simp_all add: expand_dollars_def dollar_re_def)

text \<open>
  C8. \<open>getReplacement\<close> of a regular expression query expands the replacement template
  left to right and then hands the result to \<open>unquote\<close>. In the expansion a doubled dollar
  sign becomes one dollar sign, dollar-ampersand becomes the whole matched text, and a
  dollar sign with a digit from 1 to 9 that is below the length of the match array
  becomes that element of the array; a dollar sign followed by 0, by a digit that is not
  below the length, or by any other unit is copied unchanged with that unit, as is every
  other unit.
\<close>

theorem getReplacement_expands:
  "RegExpQuery_getReplacement sp r = unquote sp (expand_dollars r (replace sp)) \<and>
   expand_dollars r (CHR ''$'' # CHR ''$'' # t) = CHR ''$'' # expand_dollars r t \<and>
   expand_dollars r (CHR ''$'' # CHR ''&'' # t) = whole (match r) @ expand_dollars r t \<and>
   (1 \<le> k \<and> k \<le> 9 \<and> k < match_length (match r) \<longrightarrow>
      expand_dollars r (CHR ''$'' # digit_char k # t)
        = js_string (match_at (match r) k) @ expand_dollars r t) \<and>
   (k \<le> 9 \<and> (k = 0 \<or> match_length (match r) \<le> k) \<longrightarrow>
      expand_dollars r (CHR ''$'' # digit_char k # t)
        = CHR ''$'' # digit_char k # expand_dollars r t) \<and>
   (d \<noteq> CHR ''$'' \<and> d \<noteq> CHR ''&'' \<and> \<not> is_digit d \<longrightarrow>
      expand_dollars r (CHR ''$'' # d # t) = CHR ''$'' # d # expand_dollars r t) \<and>
   (c \<noteq> CHR ''$'' \<longrightarrow> expand_dollars r (c # t) = c # expand_dollars r t) \<and>
   expand_dollars r [c] = [c] \<and> expand_dollars r [] = []"
proof -
  have a: "RegExpQuery_getReplacement sp r = unquote sp (expand_dollars r (replace sp))"
    by (simp add: RegExpQuery_getReplacement_def)
  have b: "expand_dollars r (CHR ''$'' # CHR ''$'' # t) = CHR ''$'' # expand_dollars r t"
    by (simp add: expand_dollars_def dollar_re_def dollar_fn_def)
  have c: "expand_dollars r (CHR ''$'' # CHR ''&'' # t) = whole (match r) @ expand_dollars r t"
    by (simp add: expand_dollars_def dollar_re_def dollar_fn_def match_at_def js_string_def)
  have d: "expand_dollars r (CHR ''$'' # digit_char k # t)
        = js_string (match_at (match r) k) @ expand_dollars r t"
    if "1 \<le> k" "k \<le> 9" "k < match_length (match r)"
    using that digit_char_facts [of k]
    by (simp add: expand_dollars_def dollar_re_def dollar_fn_def)
  have e: "expand_dollars r (CHR ''$'' # digit_char k # t)
        = CHR ''$'' # digit_char k # expand_dollars r t"
    if "k \<le> 9" "k = 0 \<or> match_length (match r) \<le> k"
    using that digit_char_facts [of k]
    by (auto simp: expand_dollars_def dollar_re_def dollar_fn_def)
  have f: "expand_dollars r (CHR ''$'' # d # t) = CHR ''$'' # d # expand_dollars r t"
    if "d \<noteq> CHR ''$''" "d \<noteq> CHR ''&''" "\<not> is_digit d"
  proof (cases "d = CHR ''+''")
    case True
    then show ?thesis using that
      by (simp add: expand_dollars_def dollar_re_def dollar_fn_def unary_plus_def)
  next
    case False
    then have "\<not> dollar_re (CHR ''$'') d" using that by (simp add: dollar_re_def)
    then have "expand_dollars r (CHR ''$'' # d # t) = CHR ''$'' # expand_dollars r (d # t)"
      by (simp add: expand_dollars_def)
    then show ?thesis using that by (simp add: expand_dollars_Cons)
  qed
  have g: "expand_dollars r [c] = [c]" "expand_dollars r [] = []"
    by (simp_all add: expand_dollars_def)
  show ?thesis using a b c d e f g expand_dollars_Cons [of c r t] by blast
qed

theorem getReplacement_expands_witness:
  "RegExpQuery_getReplacement
     (new_SearchQuery (\<lambda>_. True) ((search_only ''(a)(b)'')\<lparr>cfg_regexp := Some True,
        cfg_replace := Some ''$2$1-$&/$$/$9/$0''\<rparr>))
     \<lparr>from_pos = 3, to_pos = 5,
      match = \<lparr>whole = ''ab'', groups = [Some ''a'', Some ''b''], index = 3, input = ''xyzab''\<rparr>\<rparr>
   = ''ba-ab/$/$9/$0''"
  using getReplacement_expands [of
     "new_SearchQuery (\<lambda>_. True) ((search_only ''(a)(b)'')\<lparr>cfg_regexp := Some True,
        cfg_replace := Some ''$2$1-$&/$$/$9/$0''\<rparr>)"
     "\<lparr>from_pos = 3, to_pos = 5,
      match = \<lparr>whole = ''ab'', groups = [Some ''a'', Some ''b''], index = 3, input = ''xyzab''\<rparr>\<rparr>"
     "''''" 2 "CHR ''x''" "CHR ''y''"]
  by (simp add: new_SearchQuery_def search_only_def truthy_def or_empty_def Let_def
      unquote_def unquote_re_def unquote_fn_def backslash_def
      expand_dollars_def dollar_re_def dollar_fn_def is_digit_def unary_plus_def
      match_length_def match_at_def js_string_def RegExpQuery_getReplacement_def)

subsection \<open>Unfolding the loops\<close>

declare upt_Suc [simp del]

declare drain_next.simps [simp del] drain_overlapping.simps [simp del]
  StringQuery_matchAll_loop.simps [simp del] RegExpQuery_matchAll_loop.simps [simp del]
  last_overlapping.simps [simp del] rc_last.simps [simp del]
  StringQuery_prevMatchInRange_loop.simps [simp del]
  RegExpQuery_prevMatchInRange_loop.simps [simp del]
  StringQuery_highlight_loop.simps [simp del] RegExpQuery_highlight_loop.simps [simp del]

lemma drain_overlapping_unfold:
  "sc_done (nextOverlapping c) \<Longrightarrow> drain_overlapping c = []"
  "\<not> sc_done (nextOverlapping c) \<Longrightarrow>
     drain_overlapping c = sc_value (nextOverlapping c) # drain_overlapping (nextOverlapping c)"
  by (subst drain_overlapping.simps, simp add: Let_def)+

subsection \<open>find and filter on an interval\<close>

lemma find_upt_None: "find P [a ..< b] = None \<Longrightarrow> filter P [a ..< b] = []"
  by (auto simp: find_None_iff filter_empty_conv)

lemma find_upt_Some:
  assumes "find P [a ..< b] = Some p"
  shows "P p \<and> a \<le> p \<and> p < b \<and> filter P [a ..< b] = p # filter P [Suc p ..< b]"
proof -
  from assms obtain i where i: "i < b - a" "P (a + i)" "p = a + i" "\<forall>j<i. \<not> P (a + j)"
    by (auto simp: find_Some_iff)
  then have ap: "a \<le> p" "p < b" by auto
  then have split: "[a ..< b] = [a ..< p] @ p # [Suc p ..< b]"
    by (metis le_Suc_ex less_imp_le_nat upt_add_eq_append upt_conv_Cons)
  have "filter P [a ..< p] = []"
  proof -
    have "\<not> P x" if "a \<le> x" "x < p" for x
      using i(4) [rule_format, of "x - a"] that i(3) by auto
    then show ?thesis by (auto simp: filter_empty_conv)
  qed
  with split i ap show ?thesis by simp
qed

subsection \<open>The literal cursor\<close>

definition mk :: "SearchCursor \<Rightarrow> nat \<Rightarrow> Match" where
  "mk c p = \<lparr>from_pos = p, to_pos = p + length (sc_query c)\<rparr>"

lemma matches_at_update [simp]:
  "matches_at (c\<lparr>sc_pos := x\<rparr>) = matches_at c"
  "matches_at (c\<lparr>sc_value := v\<rparr>) = matches_at c"
  "matches_at (c\<lparr>sc_done := d\<rparr>) = matches_at c"
  by (simp_all add: matches_at_def fun_eq_iff split: option.splits)

lemma mk_update [simp]:
  "mk (c\<lparr>sc_pos := x\<rparr>) = mk c"
  "mk (c\<lparr>sc_value := v\<rparr>) = mk c"
  by (simp_all add: mk_def fun_eq_iff)

lemma matches_at_bound: "matches_at c p \<Longrightarrow> p < sc_to c \<and> p + length (sc_query c) \<le> sc_to c"
  by (cases "sc_query c") (auto simp: matches_at_def)

lemma nextOverlapping_None:
  "\<not> sc_done c \<Longrightarrow> find (matches_at c) [sc_pos c ..< Suc (sc_to c)] = None \<Longrightarrow>
   sc_done (nextOverlapping c)"
  by (simp add: nextOverlapping_def)

lemma nextOverlapping_Some:
  "\<not> sc_done c \<Longrightarrow> find (matches_at c) [sc_pos c ..< Suc (sc_to c)] = Some p \<Longrightarrow>
   nextOverlapping c = c\<lparr>sc_value := mk c p, sc_pos := p + 1\<rparr>"
  by (simp add: nextOverlapping_def mk_def)

lemma drain_overlapping_filter:
  "\<not> sc_done c \<Longrightarrow>
   drain_overlapping c = map (mk c) (filter (matches_at c) [sc_pos c ..< Suc (sc_to c)])"
proof (induction c rule: drain_overlapping.induct)
  case (1 c)
  show ?case
  proof (cases "find (matches_at c) [sc_pos c ..< Suc (sc_to c)]")
    case None
    with 1(2) show ?thesis
      by (simp add: drain_overlapping_unfold nextOverlapping_None find_upt_None)
  next
    case (Some p)
    note nx = nextOverlapping_Some [OF 1(2) Some]
    have nd: "\<not> sc_done (nextOverlapping c)" using nx 1(2) by simp
    from 1(1) [OF refl nd nd] nx nd find_upt_Some [OF Some] show ?thesis
      by (simp add: drain_overlapping_unfold)
  qed
qed

lemma drain_overlapping_done: "sc_done c \<Longrightarrow> drain_overlapping c = []"
  by (simp add: drain_overlapping_unfold nextOverlapping_def)


subsection \<open>Occurrences\<close>

lemma stringCursor_fields:
  "sc_pos (stringCursor sp st a b) = a" "sc_to (stringCursor sp st a b) = b"
  "\<not> sc_done (stringCursor sp st a b)"
  "length (sc_query (stringCursor sp st a b)) = pattern_length sp"
  "sc_value (stringCursor sp st a b) = \<lparr>from_pos = 0, to_pos = 0\<rparr>"
  by (simp_all add: stringCursor_def new_SearchCursor_def pattern_length_def Let_def)

lemma matches_at_stringCursor:
  "matches_at (stringCursor sp st a b) p \<longleftrightarrow> occurs sp st b p"
  by (simp add: matches_at_def stringCursor_def new_SearchCursor_def occurs_def Let_def
      split: option.splits)

lemma mk_stringCursor: "mk (stringCursor sp st a b) = match_of sp"
  by (simp add: mk_def match_of_def stringCursor_fields fun_eq_iff)

lemma occurs_bound: "occurs sp st b p \<Longrightarrow> p < b \<and> p + pattern_length sp \<le> b \<and> 0 < pattern_length sp"
  by (cases "(if caseSensitive sp then (\<lambda>x. x) else toLowerCase) (unquoted sp)")
     (auto simp: occurs_def pattern_length_def Let_def)

lemma filter_occurs_Suc:
  "filter (occurs sp st b) [a ..< Suc b] = filter (occurs sp st b) [a ..< b]"
proof (cases "a \<le> b")
  case True
  then have "[a ..< Suc b] = [a ..< b] @ [b]" by (simp add: upt_Suc)
  moreover have "\<not> occurs sp st b b" using occurs_bound [of sp st b b] by auto
  ultimately show ?thesis by simp
next
  case False
  then show ?thesis by simp
qed

lemma forward_scan_string:
  "forward_scan engine (StringQuery sp) st a b =
     map (match_of sp) (filter (occurs sp st b) [a ..< b])"
proof -
  have "matches_at (stringCursor sp st a b) = occurs sp st b"
    by (simp add: fun_eq_iff matches_at_stringCursor)
  then show ?thesis
    using drain_overlapping_filter [of "stringCursor sp st a b"]
    by (simp add: stringCursor_fields mk_stringCursor filter_occurs_Suc)
qed




subsection \<open>nextMatch\<close>

lemma StringQuery_nextMatch_eq:
  "fst (StringQuery_nextMatch sp st cf ct) =
     (case drain_overlapping (stringCursor sp st ct (length (doc st))) of
        m # ms \<Rightarrow> Some m
      | [] \<Rightarrow> (case drain_overlapping (stringCursor sp st 0 cf) of
                 m # ms \<Rightarrow> Some m | [] \<Rightarrow> None))"
proof (cases "sc_done (nextOverlapping (stringCursor sp st ct (length (doc st))))")
  case False
  then show ?thesis
    by (simp add: StringQuery_nextMatch_def drain_overlapping_unfold)
next
  case True
  then show ?thesis
    by (cases "sc_done (nextOverlapping (stringCursor sp st 0 cf))")
       (simp_all add: StringQuery_nextMatch_def drain_overlapping_unfold)
qed

lemma regexpCursor_fields:
  "\<not> rc_done (regexpCursor e sp st a b)"
  "rc_pending (regexpCursor e sp st a b) = regexp_scan e sp st a b"
  by (simp_all add: regexpCursor_def new_RegExpCursor_def regexp_scan_def)

lemma rc_next_first:
  "\<not> rc_done c \<Longrightarrow>
   (if rc_done (rc_next c) then None else rc_value (rc_next c)) =
   (case rc_pending c of [] \<Rightarrow> None | r # rs \<Rightarrow> Some r)"
  by (cases "rc_pending c") (simp_all add: rc_next_def)

lemma rc_next_done_iff: "\<not> rc_done c \<Longrightarrow> rc_done (rc_next c) \<longleftrightarrow> rc_pending c = []"
  by (cases "rc_pending c") (simp_all add: rc_next_def)

lemma RegExpQuery_nextMatch_eq:
  "fst (RegExpQuery_nextMatch e sp st cf ct) =
     (case regexp_scan e sp st ct (length (doc st)) of
        m # ms \<Rightarrow> Some m
      | [] \<Rightarrow> (case regexp_scan e sp st 0 cf of m # ms \<Rightarrow> Some m | [] \<Rightarrow> None))"
  using rc_next_first [of "regexpCursor e sp st ct (length (doc st))"]
    rc_next_first [of "regexpCursor e sp st 0 cf"]
    rc_next_done_iff [of "regexpCursor e sp st ct (length (doc st))"]
  by (auto simp: RegExpQuery_nextMatch_def regexpCursor_fields split: list.splits)

text \<open>
  C3. \<open>nextMatch\<close> returns the first match of a forward scan of the range from \<open>curTo\<close>
  to the end of the document; when that scan yields nothing, the first match of a
  forward scan of the range from 0 to \<open>curFrom\<close>; and none when that yields nothing
  either. So a document whose only match lies before \<open>curFrom\<close> gives that match. For a
  literal query the forward scan of a range yields every occurrence within the range, in
  ascending order.
\<close>

theorem nextMatch_wraps:
  "fst (nextMatch engine q st curFrom curTo) =
     (case forward_scan engine q st curTo (length (doc st)) of
        m # ms \<Rightarrow> Some m
      | [] \<Rightarrow> (case forward_scan engine q st 0 curFrom of m # ms \<Rightarrow> Some m | [] \<Rightarrow> None)) \<and>
   (forward_scan engine q st curTo (length (doc st)) = [] \<and>
    forward_scan engine q st 0 curFrom = [m] \<longrightarrow>
      fst (nextMatch engine q st curFrom curTo) = Some m) \<and>
   (q = StringQuery sp \<longrightarrow>
      forward_scan engine q st a b = map (match_of sp) (filter (occurs sp st b) [a ..< b]))"
proof -
  have main: "fst (nextMatch engine q st curFrom curTo) =
     (case forward_scan engine q st curTo (length (doc st)) of
        m # ms \<Rightarrow> Some m
      | [] \<Rightarrow> (case forward_scan engine q st 0 curFrom of m # ms \<Rightarrow> Some m | [] \<Rightarrow> None))"
  proof (cases q)
    case (StringQuery sp')
    show ?thesis unfolding StringQuery
      by (simp add: StringQuery_nextMatch_eq split: list.splits)
  next
    case (RegExpQuery sp')
    show ?thesis unfolding RegExpQuery
      by (simp add: RegExpQuery_nextMatch_eq cut_def regexp_scan_def split: list.splits)
  qed
  moreover have "q = StringQuery sp \<longrightarrow>
      forward_scan engine q st a b = map (match_of sp) (filter (occurs sp st b) [a ..< b])"
    using forward_scan_string by blast
  ultimately show ?thesis by simp
qed

theorem nextMatch_wraps_witness:
  "forward_scan no_engine (StringQuery (literal_query ''aa'')) (state_of ''baab'') 4 4 = [] \<and>
   forward_scan no_engine (StringQuery (literal_query ''aa'')) (state_of ''baab'') 0 4
     = [\<lparr>from_pos = 1, to_pos = 3\<rparr>] \<and>
   fst (nextMatch no_engine (StringQuery (literal_query ''aa'')) (state_of ''baab'') 4 4)
     = Some \<lparr>from_pos = 1, to_pos = 3\<rparr> \<and>
   fst (nextMatch literal_engine (RegExpQuery (regexp_query ''aa'')) (state_of ''baab'') 4 4)
     = Some \<lparr>from_pos = 1, to_pos = 3\<rparr>"
proof -
  have a: "forward_scan no_engine (StringQuery (literal_query ''aa'')) (state_of ''baab'') 4
      (length (doc (state_of ''baab''))) = []"
    by code_simp
  have b: "forward_scan no_engine (StringQuery (literal_query ''aa'')) (state_of ''baab'') 0 4
     = [\<lparr>from_pos = 1, to_pos = 3\<rparr>]"
    by code_simp
  have c: "forward_scan literal_engine (RegExpQuery (regexp_query ''aa'')) (state_of ''baab'') 4
      (length (doc (state_of ''baab''))) = []"
    by code_simp
  have d: "forward_scan literal_engine (RegExpQuery (regexp_query ''aa'')) (state_of ''baab'') 0 4
     = [\<lparr>from_pos = 1, to_pos = 3\<rparr>]"
    by code_simp
  have l: "length (doc (state_of ''baab'')) = 4" by (simp add: state_of_def)
  show ?thesis
    using nextMatch_wraps [of no_engine "StringQuery (literal_query ''aa'')" "state_of ''baab''" 4 4
        "\<lparr>from_pos = 1, to_pos = 3\<rparr>" "literal_query ''aa''" 0 4]
      nextMatch_wraps [of literal_engine "RegExpQuery (regexp_query ''aa'')" "state_of ''baab''" 4 4
        "\<lparr>from_pos = 1, to_pos = 3\<rparr>" "literal_query ''aa''" 0 4]
      a b c d l
    by simp
qed

subsection \<open>prevMatch of a literal query\<close>



subsection \<open>matchAll\<close>

lemma drain_next_unfold:
  "sc_done (next_match c) \<Longrightarrow> drain_next c = []"
  "\<not> sc_done (next_match c) \<Longrightarrow>
     drain_next c = sc_value (next_match c) # drain_next (next_match c)"
  by (subst drain_next.simps, simp add: Let_def)+

lemma StringQuery_matchAll_loop_eq:
  "length found \<le> limit \<Longrightarrow> StringQuery_matchAll_loop c limit found =
     (if limit < length found + length (drain_next c) then None
      else Some (found @ drain_next c))"
proof (induction c limit found rule: StringQuery_matchAll_loop.induct)
  case (1 cursor limit found)
  show ?case
  proof (cases "sc_done (next_match cursor)")
    case True
    with "1.prems" show ?thesis
      by (subst StringQuery_matchAll_loop.simps) (simp add: drain_next_unfold)
  next
    case nd: False
    show ?thesis
    proof (cases "limit \<le> length found")
      case True
      with nd show ?thesis
        by (subst StringQuery_matchAll_loop.simps) (simp add: drain_next_unfold)
    next
      case False
      with nd "1.IH" [OF refl nd] show ?thesis
        by (subst StringQuery_matchAll_loop.simps) (simp add: drain_next_unfold Let_def)
    qed
  qed
qed

lemma rc_pending_cases:
  "rc_pending c = [] \<Longrightarrow> rc_done (rc_next c)"
  "rc_pending c = r # rs \<Longrightarrow> rc_next c = c\<lparr>rc_value := Some r, rc_pending := rs\<rparr>"
  by (simp_all add: rc_next_def)

lemma RegExpQuery_matchAll_loop_eq:
  "\<not> rc_done c \<Longrightarrow> length found \<le> limit \<Longrightarrow> RegExpQuery_matchAll_loop c limit found =
     (if limit < length found + length (rc_pending c) then None
      else Some (found @ rc_pending c))"
proof (induction "rc_pending c" arbitrary: c found)
  case Nil
  then show ?case
    by (subst RegExpQuery_matchAll_loop.simps) (simp add: rc_next_def)
next
  case (Cons r rs)
  from Cons(2) [symmetric] have nx: "rc_next c = c\<lparr>rc_value := Some r, rc_pending := rs\<rparr>"
    by (rule rc_pending_cases)
  have "rs = rc_pending (rc_next c)" "\<not> rc_done (rc_next c)"
    using nx Cons(3) by simp_all
  from Cons(1) [OF this, of "found @ [r]"] nx Cons(2) [symmetric] Cons(3) Cons(4) show ?case
    by (subst RegExpQuery_matchAll_loop.simps) (auto simp: Let_def)
qed

lemma matchAll_limit_eq:
  "fst (matchAll engine q state limit) =
     (if limit < length (all_matches engine q state) then None
      else Some (all_matches engine q state))"
proof (cases q)
  case (StringQuery sp)
  then show ?thesis
    by (simp add: StringQuery_matchAll_def StringQuery_matchAll_loop_eq)
next
  case (RegExpQuery sp)
  have "\<not> rc_done (regexpCursor engine sp state 0 (length (doc state)))"
    by (simp add: regexpCursor_def new_RegExpCursor_def)
  from RegExpQuery_matchAll_loop_eq [OF this, of "[]" limit] RegExpQuery show ?thesis
    by (simp add: RegExpQuery_matchAll_def)
qed

text \<open>
  C7. \<open>matchAll\<close> returns none exactly when the document holds more matches than the
  limit, and the complete list of the matches otherwise (also when their number is the
  limit, and the empty list when there is none), so that the result for too many
  matches differs from the result for no match.
\<close>

theorem matchAll_limit:
  "fst (matchAll engine q state limit) =
     (if limit < length (all_matches engine q state) then None
      else Some (all_matches engine q state)) \<and>
   (length (all_matches engine q state) = limit \<longrightarrow>
      fst (matchAll engine q state limit) = Some (all_matches engine q state)) \<and>
   (fst (matchAll engine q state limit) = None \<longleftrightarrow> limit < length (all_matches engine q state)) \<and>
   (fst (matchAll engine q state limit) = Some [] \<longleftrightarrow> all_matches engine q state = [])"
  using matchAll_limit_eq [of engine q state limit] by auto

theorem matchAll_limit_witness:
  "all_matches no_engine (StringQuery (literal_query ''aa'')) (state_of ''aaaaxaa'')
     = [\<lparr>from_pos = 0, to_pos = 2\<rparr>, \<lparr>from_pos = 2, to_pos = 4\<rparr>, \<lparr>from_pos = 5, to_pos = 7\<rparr>] \<and>
   fst (matchAll no_engine (StringQuery (literal_query ''aa'')) (state_of ''aaaaxaa'') 2) = None \<and>
   fst (matchAll no_engine (StringQuery (literal_query ''aa'')) (state_of ''aaaaxaa'') 3)
     = Some [\<lparr>from_pos = 0, to_pos = 2\<rparr>, \<lparr>from_pos = 2, to_pos = 4\<rparr>, \<lparr>from_pos = 5, to_pos = 7\<rparr>] \<and>
   fst (matchAll no_engine (StringQuery (literal_query ''b'')) (state_of ''aaaaxaa'') 0) = Some [] \<and>
   fst (matchAll literal_engine (RegExpQuery (regexp_query ''aa'')) (state_of ''aaaaxaa'') 2) = None"
proof -
  have a: "all_matches no_engine (StringQuery (literal_query ''aa'')) (state_of ''aaaaxaa'')
     = [\<lparr>from_pos = 0, to_pos = 2\<rparr>, \<lparr>from_pos = 2, to_pos = 4\<rparr>, \<lparr>from_pos = 5, to_pos = 7\<rparr>]"
    by code_simp
  have b: "all_matches no_engine (StringQuery (literal_query ''b'')) (state_of ''aaaaxaa'') = []"
    by code_simp
  have c: "all_matches literal_engine (RegExpQuery (regexp_query ''aa'')) (state_of ''aaaaxaa'')
     = [\<lparr>from_pos = 0, to_pos = 2\<rparr>, \<lparr>from_pos = 2, to_pos = 4\<rparr>, \<lparr>from_pos = 5, to_pos = 7\<rparr>]"
    by code_simp
  note r1 = matchAll_limit [of no_engine "StringQuery (literal_query ''aa'')"
      "state_of ''aaaaxaa''" 2, THEN conjunct1, unfolded a]
  note r2 = matchAll_limit [of no_engine "StringQuery (literal_query ''aa'')"
      "state_of ''aaaaxaa''" 3, THEN conjunct1, unfolded a]
  note r3 = matchAll_limit [of no_engine "StringQuery (literal_query ''b'')"
      "state_of ''aaaaxaa''" 0, THEN conjunct1, unfolded b]
  note r4 = matchAll_limit [of literal_engine "RegExpQuery (regexp_query ''aa'')"
      "state_of ''aaaaxaa''" 2, THEN conjunct1, unfolded c]
  show ?thesis
    unfolding a r1 r2 r3 r4 by simp
qed

subsection \<open>prevMatchInRange of a regular expression query\<close>

lemma rc_last_eq:
  "\<not> rc_done c \<Longrightarrow>
   rc_last c r = (if rc_pending c = [] then r else Some (last (rc_pending c)))"
proof (induction "rc_pending c" arbitrary: c r)
  case Nil
  then show ?case by (subst rc_last.simps) (simp add: rc_next_def)
next
  case (Cons x xs)
  from Cons(2) [symmetric] have nx: "rc_next c = c\<lparr>rc_value := Some x, rc_pending := xs\<rparr>"
    by (rule rc_pending_cases)
  have "xs = rc_pending (rc_next c)" "\<not> rc_done (rc_next c)"
    using nx Cons(3) by simp_all
  from Cons(1) [OF this, of "Some x"] nx Cons(2) [symmetric] Cons(3) show ?case
    by (subst rc_last.simps) (auto simp: Let_def)
qed

lemma rc_last_scan:
  "rc_last (regexpCursor e sp st a b) None =
     (if regexp_scan e sp st a b = [] then None else Some (last (regexp_scan e sp st a b)))"
  by (simp add: rc_last_eq regexpCursor_fields)

text \<open>The chunk that the loop scans with the counter at \<open>k\<close>, and whether its scan is accepted.\<close>

definition chunk_start :: "nat \<Rightarrow> nat \<Rightarrow> nat \<Rightarrow> nat" where
  "chunk_start from to k = max from (to - k * ChunkSize)"

definition chunk_accepted ::
  "RegExpEngine \<Rightarrow> SearchQuery \<Rightarrow> EditorState \<Rightarrow> nat \<Rightarrow> nat \<Rightarrow> nat \<Rightarrow> bool" where
  "chunk_accepted e sp st from to s \<longleftrightarrow>
     regexp_scan e sp st s to \<noteq> [] \<and>
     (s = from \<or> from_pos (last (regexp_scan e sp st s to)) > s + 10)"

lemma RegExp_loop_step:
  "RegExpQuery_prevMatchInRange_loop e sp st from to sz =
     (if chunk_accepted e sp st from to (chunk_start from to sz)
      then (Some (last (regexp_scan e sp st (chunk_start from to sz) to)),
            [(chunk_start from to sz, to)])
      else if chunk_start from to sz = from then (None, [(from, to)])
      else (case RegExpQuery_prevMatchInRange_loop e sp st from to (sz + 1) of
              (r, cl) \<Rightarrow> (r, (chunk_start from to sz, to) # cl)))"
  by (subst RegExpQuery_prevMatchInRange_loop.simps)
     (simp add: Let_def rc_last_scan chunk_accepted_def chunk_start_def)

lemma RegExp_loop_props:
  "\<exists>n r. RegExpQuery_prevMatchInRange_loop e sp st from to sz
       = (r, map (\<lambda>k. (chunk_start from to (sz + k), to)) [0 ..< Suc n]) \<and>
     (\<forall>k<n. \<not> chunk_accepted e sp st from to (chunk_start from to (sz + k)) \<and>
            chunk_start from to (sz + k) \<noteq> from) \<and>
     (if chunk_accepted e sp st from to (chunk_start from to (sz + n))
      then r = Some (last (regexp_scan e sp st (chunk_start from to (sz + n)) to))
      else r = None \<and> chunk_start from to (sz + n) = from)"
proof (induction e sp st "from" to sz rule: RegExpQuery_prevMatchInRange_loop.induct)
  case (1 e sp st "from" to sz)
  let ?s = "chunk_start from to sz"
  show ?case
  proof (cases "chunk_accepted e sp st from to ?s \<or> ?s = from")
    case True
    then show ?thesis
      by (intro exI [of _ 0]) (auto simp: RegExp_loop_step upt_Suc)
  next
    case False
    have nacc: "\<not> (case rc_last (regexpCursor e sp st ?s to) None of
        None \<Rightarrow> False | Some r \<Rightarrow> ?s = from \<or> ?s + 10 < from_pos r)"
      using False by (auto simp: rc_last_scan chunk_accepted_def)
    have s: "?s = max from (to - sz * ChunkSize)" by (simp add: chunk_start_def)
    from False have ne: "?s \<noteq> from" by simp
    from "1.IH" [OF s refl nacc ne]
    obtain n r where ih:
      "RegExpQuery_prevMatchInRange_loop e sp st from to (sz + 1)
         = (r, map (\<lambda>k. (chunk_start from to (sz + 1 + k), to)) [0 ..< Suc n])"
      "\<forall>k<n. \<not> chunk_accepted e sp st from to (chunk_start from to (sz + 1 + k)) \<and>
            chunk_start from to (sz + 1 + k) \<noteq> from"
      "if chunk_accepted e sp st from to (chunk_start from to (sz + 1 + n))
       then r = Some (last (regexp_scan e sp st (chunk_start from to (sz + 1 + n)) to))
       else r = None \<and> chunk_start from to (sz + 1 + n) = from"
      by auto
    have log: "(?s, to) # map (\<lambda>k. (chunk_start from to (sz + 1 + k), to)) [0 ..< Suc n]
        = map (\<lambda>k. (chunk_start from to (sz + k), to)) [0 ..< Suc (Suc n)]"
      by (simp add: upt_conv_Cons [of 0 "Suc (Suc n)"] map_Suc_upt [symmetric] del: upt.simps)
    have rej: "\<forall>k<Suc n. \<not> chunk_accepted e sp st from to (chunk_start from to (sz + k)) \<and>
            chunk_start from to (sz + k) \<noteq> from"
    proof (intro allI impI)
      fix k assume "k < Suc n"
      then show "\<not> chunk_accepted e sp st from to (chunk_start from to (sz + k)) \<and>
            chunk_start from to (sz + k) \<noteq> from"
        using False ih(2) [rule_format, of "k - 1"] by (cases k) auto
    qed
    have step: "RegExpQuery_prevMatchInRange_loop e sp st from to sz =
        (case RegExpQuery_prevMatchInRange_loop e sp st from to (sz + 1) of
           (r, cl) \<Rightarrow> (r, (?s, to) # cl))"
      using False by (subst RegExp_loop_step) simp
    show ?thesis
      apply (intro exI [of _ "Suc n"] exI [of _ r])
      using ih(1) ih(3) rej log
      by (auto simp: step split: if_splits)
  qed
qed


lemma RegExp_range_props:
  "\<exists>n r. RegExpQuery_prevMatchInRange e sp st from to
       = (r, map (\<lambda>k. (chunk_start from to (Suc k), to)) [0 ..< Suc n]) \<and>
     (\<forall>k<n. \<not> chunk_accepted e sp st from to (chunk_start from to (Suc k)) \<and>
            chunk_start from to (Suc k) \<noteq> from) \<and>
     (if chunk_accepted e sp st from to (chunk_start from to (Suc n))
      then r = Some (last (regexp_scan e sp st (chunk_start from to (Suc n)) to))
      else r = None \<and> chunk_start from to (Suc n) = from)"
  using RegExp_loop_props [of e sp st "from" to 1]
  unfolding RegExpQuery_prevMatchInRange_def plus_1_eq_Suc .

lemma map_upt_last: "last (map f [0 ..< Suc n]) = f n"
  by (simp add: upt_Suc)

lemma map_upt_butlast: "butlast (map f [0 ..< Suc n]) = map f [0 ..< n]"
  by (simp add: upt_Suc)

text \<open>
  C6. In the backward search of a regular expression query every chunk ends at the upper
  bound of the range. Every chunk but the last one scanned was given up for a larger
  one: it did not begin at the start of the range, and the last match found in it, if
  there was one, began at most 10 units behind the chunk's start. The match returned is
  the last match found in the last chunk scanned, and that chunk begins at the start of
  the range or the match begins more than 10 units behind the chunk's start. None is
  returned only when the chunk that begins at the start of the range holds no match.
\<close>

theorem prevMatchInRange_accepts:
  "case RegExpQuery_prevMatchInRange engine sp st lo hi of
     (r, cl) \<Rightarrow>
       cl \<noteq> [] \<and>
       (\<forall>c \<in> set cl. snd c = hi) \<and>
       (\<forall>c \<in> set (butlast cl).
          fst c \<noteq> lo \<and>
          (regexp_scan engine sp st (fst c) hi = [] \<or>
           from_pos (last (regexp_scan engine sp st (fst c) hi)) \<le> fst c + 10)) \<and>
       (case r of
          Some m \<Rightarrow>
            regexp_scan engine sp st (fst (last cl)) hi \<noteq> [] \<and>
            m = last (regexp_scan engine sp st (fst (last cl)) hi) \<and>
            (fst (last cl) = lo \<or> from_pos m > fst (last cl) + 10)
        | None \<Rightarrow> fst (last cl) = lo \<and> regexp_scan engine sp st lo hi = [])"
proof -
  obtain n r where
    eq: "RegExpQuery_prevMatchInRange engine sp st lo hi
       = (r, map (\<lambda>k. (chunk_start lo hi (Suc k), hi)) [0 ..< Suc n])" and
    rej: "\<forall>k<n. \<not> chunk_accepted engine sp st lo hi (chunk_start lo hi (Suc k)) \<and>
            chunk_start lo hi (Suc k) \<noteq> lo" and
    fin: "if chunk_accepted engine sp st lo hi (chunk_start lo hi (Suc n))
     then r = Some (last (regexp_scan engine sp st (chunk_start lo hi (Suc n)) hi))
     else r = None \<and> chunk_start lo hi (Suc n) = lo"
    using RegExp_range_props [of engine sp st lo hi] by blast
  let ?cl = "map (\<lambda>k. (chunk_start lo hi (Suc k), hi)) [0 ..< Suc n]"
  have 1: "?cl \<noteq> []" by (simp add: upt_Suc)
  have 2: "\<forall>c \<in> set ?cl. snd c = hi" by auto
  have 3: "\<forall>c \<in> set (butlast ?cl).
          fst c \<noteq> lo \<and>
          (regexp_scan engine sp st (fst c) hi = [] \<or>
           from_pos (last (regexp_scan engine sp st (fst c) hi)) \<le> fst c + 10)"
    unfolding map_upt_butlast using rej by (auto simp: chunk_accepted_def)
  have 4: "case r of
          Some m \<Rightarrow>
            regexp_scan engine sp st (fst (last ?cl)) hi \<noteq> [] \<and>
            m = last (regexp_scan engine sp st (fst (last ?cl)) hi) \<and>
            (fst (last ?cl) = lo \<or> from_pos m > fst (last ?cl) + 10)
        | None \<Rightarrow> fst (last ?cl) = lo \<and> regexp_scan engine sp st lo hi = []"
    unfolding map_upt_last using fin
    by (auto simp: chunk_accepted_def split: if_splits)
  from 1 2 3 4 show ?thesis unfolding eq by simp
qed

subsection \<open>Cursors that scan alike\<close>

definition same_scan :: "SearchCursor \<Rightarrow> SearchCursor \<Rightarrow> bool" where
  "same_scan c c' \<longleftrightarrow>
     length (sc_query c) = length (sc_query c') \<and> sc_pos c = sc_pos c' \<and>
     sc_value c = sc_value c' \<and> sc_done c = sc_done c' \<and> matches_at c = matches_at c'"

lemma find_app:
  "find P (xs @ ys) = (case find P xs of None \<Rightarrow> find P ys | Some x \<Rightarrow> Some x)"
  by (induction xs) auto

lemma find_upt_shrink:
  assumes "\<And>p. P p \<Longrightarrow> p < m" "m \<le> b"
  shows "find P [a ..< b] = find P [a ..< m]"
proof (cases "a \<le> m")
  case True
  with assms(2) have "[a ..< b] = [a ..< m] @ [m ..< b]"
    by (metis le_Suc_ex upt_add_eq_append)
  moreover have "\<not> P x" if "m \<le> x" for x
    using assms(1) [of x] that by auto
  then have "find P [m ..< b] = None"
    by (auto simp: find_None_iff)
  ultimately show ?thesis by (simp add: find_app split: option.splits)
next
  case False
  moreover have "\<not> P x" if "m \<le> x" for x
    using assms(1) [of x] that by auto
  ultimately have "find P [a ..< b] = None" by (auto simp: find_None_iff)
  with False show ?thesis by simp
qed

lemma find_upt_bound:
  assumes "\<And>p. P p \<Longrightarrow> p < b \<and> p < b'"
  shows "find P [a ..< b] = find P [a ..< b']"
  using find_upt_shrink [of P "min b b'" b a] find_upt_shrink [of P "min b b'" b' a] assms
  by simp

lemma nextOverlapping_same:
  assumes "same_scan c c'"
  shows "same_scan (nextOverlapping c) (nextOverlapping c')"
proof -
  have "find (matches_at c) [sc_pos c ..< Suc (sc_to c)]
      = find (matches_at c) [sc_pos c ..< Suc (sc_to c')]"
  proof (rule find_upt_bound)
    fix p assume m: "matches_at c p"
    then have "matches_at c' p" using assms by (simp add: same_scan_def)
    with m show "p < Suc (sc_to c) \<and> p < Suc (sc_to c')"
      using matches_at_bound [of c p] matches_at_bound [of c' p] by simp
  qed
  with assms show ?thesis
    by (auto simp: same_scan_def nextOverlapping_def split: option.splits)
qed

lemma next_match_same:
  assumes "same_scan c c'"
  shows "same_scan (next_match c) (next_match c')"
  unfolding next_match_def
  by (rule nextOverlapping_same) (use assms in \<open>simp add: same_scan_def\<close>)

lemma drain_next_same: "same_scan c c' \<Longrightarrow> drain_next c = drain_next c'"
proof (induction c arbitrary: c' rule: drain_next.induct)
  case (1 c)
  note nm = next_match_same [OF "1.prems"]
  show ?case
  proof (cases "sc_done (next_match c)")
    case True
    with nm show ?thesis by (simp add: drain_next_unfold same_scan_def)
  next
    case False
    with nm have "\<not> sc_done (next_match c')" by (simp add: same_scan_def)
    with False "1.IH" [OF refl False nm] nm show ?thesis
      by (simp add: drain_next_unfold same_scan_def)
  qed
qed

lemma drain_overlapping_same: "same_scan c c' \<Longrightarrow> drain_overlapping c = drain_overlapping c'"
proof (induction c arbitrary: c' rule: drain_overlapping.induct)
  case (1 c)
  note nm = nextOverlapping_same [OF "1.prems"]
  show ?case
  proof (cases "sc_done (nextOverlapping c)")
    case True
    with nm show ?thesis by (simp add: drain_overlapping_unfold same_scan_def)
  next
    case False
    with nm have "\<not> sc_done (nextOverlapping c')" by (simp add: same_scan_def)
    with False "1.IH" [OF refl False nm] nm show ?thesis
      by (simp add: drain_overlapping_unfold same_scan_def)
  qed
qed

subsection \<open>A text followed by units that are not in the pattern\<close>

lemma nth_slice: "i < b - a \<Longrightarrow> a + i < length s \<Longrightarrow> slice s a b ! i = s ! (a + i)"
  by (simp add: slice_def)

lemma slice_within: "b \<le> length xs \<Longrightarrow> slice (xs @ ys) a b = slice xs a b"
  by (simp add: slice_def)

lemma slice_tail:
  assumes "q \<noteq> []" "ch \<notin> set q"
  shows "(p + length q \<le> length xs + n \<and> slice (xs @ replicate n ch) p (p + length q) = q)
     \<longleftrightarrow> (p + length q \<le> length xs \<and> slice xs p (p + length q) = q)"
proof (cases "p + length q \<le> length xs")
  case True
  then show ?thesis by (simp add: slice_within)
next
  case False
  have "slice (xs @ replicate n ch) p (p + length q) \<noteq> q"
    if le: "p + length q \<le> length xs + n"
  proof
    assume eq: "slice (xs @ replicate n ch) p (p + length q) = q"
    define i where "i = length q - 1"
    have i: "i < length q" using assms(1) by (cases q) (simp_all add: i_def)
    have b: "i < p + length q - p" using i by simp
    have c: "p + i < length (xs @ replicate n ch)" using i le by simp
    have "slice (xs @ replicate n ch) p (p + length q) ! i = (xs @ replicate n ch) ! (p + i)"
      using b c by (rule nth_slice)
    then have "q ! i = (xs @ replicate n ch) ! (p + i)"
      by (simp only: eq)
    also have "\<dots> = ch"
    proof -
      have "length xs \<le> p + i" using False i unfolding i_def by arith
      moreover have "p + i - length xs < n" using False le i unfolding i_def by arith
      ultimately show ?thesis by (simp add: nth_append)
    qed
    finally have "ch \<in> set q" using i nth_mem [of i q] by simp
    with assms(2) show False by simp
  qed
  with False show ?thesis by blast
qed

lemma new_SearchCursor_tail:
  assumes "ch \<notin> set pat" "min b' (length xs) = min b (length xs)"
  shows "same_scan (new_SearchCursor (xs @ replicate n ch) pat a b None None)
           (new_SearchCursor xs pat a b' None None)"
proof -
  have "matches_at (new_SearchCursor (xs @ replicate n ch) pat a b None None) p
      = matches_at (new_SearchCursor xs pat a b' None None) p" for p
  proof (cases "pat = []")
    case True
    then show ?thesis by (simp add: matches_at_def new_SearchCursor_def)
  next
    case False
    from slice_tail [OF False assms(1), of p xs n] assms(2) show ?thesis
      by (auto simp: matches_at_def new_SearchCursor_def sliceString_def min_def split: if_splits)
  qed
  then show ?thesis by (auto simp: same_scan_def new_SearchCursor_def)
qed

lemma doc_state_of [simp]: "doc (state_of tx) = tx"
  by (simp add: state_of_def)

lemma stringCursor_plain:
  "caseSensitive sp \<Longrightarrow> \<not> wholeWord sp \<Longrightarrow>
   stringCursor sp (state_of tx) a b = new_SearchCursor tx (unquoted sp) a b None None"
  by (simp add: stringCursor_def state_of_def)


lemma literal_engine_cut:
  "test opts = None \<Longrightarrow>
   map Match.truncate (literal_engine tx pat opts a b)
     = drain_next (new_SearchCursor tx pat a b
         (if ignoreCase opts then Some toLowerCase else None) None)"
  apply (simp add: literal_engine_def comp_def)
  apply (intro conjI impI map_idI)
   apply (simp_all add: Match.truncate_def)
  done

lemma forward_scan_literal_engine:
  "caseSensitive sp \<Longrightarrow> \<not> wholeWord sp \<Longrightarrow>
   forward_scan literal_engine (RegExpQuery sp) (state_of tx) a b
     = drain_next (new_SearchCursor tx (search sp) a b None None)"
  using literal_engine_cut [of "\<lparr>ignoreCase = False, test = None\<rparr>" tx "search sp" a b]
  by (simp add: regexpCursor_def new_RegExpCursor_def state_of_def)

lemma forward_scan_tail:
  assumes "caseSensitive sp" "\<not> wholeWord sp"
  shows "ch \<notin> set (unquoted sp) \<Longrightarrow>
      forward_scan e (StringQuery sp) (state_of (xs @ replicate n ch)) a b
        = forward_scan e (StringQuery sp) (state_of xs) a (min b (length xs))"
    and "ch \<notin> set (search sp) \<Longrightarrow>
      forward_scan literal_engine (RegExpQuery sp) (state_of (xs @ replicate n ch)) a b
        = forward_scan literal_engine (RegExpQuery sp) (state_of xs) a (min b (length xs))"
    and "ch \<notin> set (unquoted sp) \<Longrightarrow>
      all_matches e (StringQuery sp) (state_of (xs @ replicate n ch))
        = all_matches e (StringQuery sp) (state_of xs)"
proof -
  have m: "min (min b (length xs)) (length xs) = min b (length xs)" by simp
  show "forward_scan e (StringQuery sp) (state_of (xs @ replicate n ch)) a b
        = forward_scan e (StringQuery sp) (state_of xs) a (min b (length xs))"
    if "ch \<notin> set (unquoted sp)"
    using drain_overlapping_same [OF new_SearchCursor_tail [OF that m,
          where a = a and n = n]] assms
    by (simp add: stringCursor_plain)
  show "forward_scan literal_engine (RegExpQuery sp) (state_of (xs @ replicate n ch)) a b
        = forward_scan literal_engine (RegExpQuery sp) (state_of xs) a (min b (length xs))"
    if "ch \<notin> set (search sp)"
    using drain_next_same [OF new_SearchCursor_tail [OF that m, where a = a and n = n]] assms
    by (simp add: forward_scan_literal_engine [OF assms] del: forward_scan.simps)
  show "all_matches e (StringQuery sp) (state_of (xs @ replicate n ch))
        = all_matches e (StringQuery sp) (state_of xs)" if "ch \<notin> set (unquoted sp)"
    using drain_next_same [OF new_SearchCursor_tail [OF that, where b' = "length xs"
          and b = "length xs + n" and a = 0 and n = n and xs = xs]] assms
    by (simp add: stringCursor_plain)
qed

subsection \<open>Backward search on long documents\<close>

lemma forward_scan_regexp:
  "forward_scan e (RegExpQuery sp) st a b = map Match.truncate (regexp_scan e sp st a b)"
  by (simp add: regexp_scan_def)

lemma from_pos_truncate [simp]: "from_pos (Match.truncate r) = from_pos r"
  by (simp add: Match.truncate_def)

lemma regexp_scan_via_forward:
  assumes "forward_scan e (RegExpQuery sp) st a b = ms"
  shows "(regexp_scan e sp st a b = [] \<longleftrightarrow> ms = [])"
    and "ms \<noteq> [] \<Longrightarrow> from_pos (last (regexp_scan e sp st a b)) = from_pos (last ms)"
    and "ms \<noteq> [] \<Longrightarrow> Match.truncate (last (regexp_scan e sp st a b)) = last ms"
proof -
  from assms have ms: "ms = map Match.truncate (regexp_scan e sp st a b)"
    unfolding forward_scan_regexp by simp
  show "(regexp_scan e sp st a b = [] \<longleftrightarrow> ms = [])" by (simp add: ms)
  show "from_pos (last (regexp_scan e sp st a b)) = from_pos (last ms)" if "ms \<noteq> []"
    using that by (simp add: ms last_map)
  show "Match.truncate (last (regexp_scan e sp st a b)) = last ms" if "ms \<noteq> []"
    using that by (simp add: ms last_map)
qed

lemma exact_regexp_query_fields:
  "caseSensitive (exact_regexp_query s)" "\<not> wholeWord (exact_regexp_query s)"
  "search (exact_regexp_query s) = s"
  by (simp_all add: exact_regexp_query_def new_SearchQuery_def search_only_def truthy_def Let_def)

theorem prevMatchInRange_accepts_witness:
  "cut (RegExpQuery_prevMatchInRange literal_engine (exact_regexp_query ''aa'')
          (state_of (''xxxxxxaa'' @ replicate 9997 (CHR ''b''))) 0 10005)
     = (Some \<lparr>from_pos = 6, to_pos = 8\<rparr>, [(5, 10005), (0, 10005)]) \<and>
   from_pos (last (regexp_scan literal_engine (exact_regexp_query ''aa'')
          (state_of (''xxxxxxaa'' @ replicate 9997 (CHR ''b''))) 5 10005)) \<le> 5 + 10"
proof -
  define Q where "Q = exact_regexp_query ''aa''"
  define S where "S = state_of (''xxxxxxaa'' @ replicate 9997 (CHR ''b''))"
  have nb: "CHR ''b'' \<notin> set (search Q)" by (simp add: Q_def exact_regexp_query_fields)
  note tail = forward_scan_tail(2) [OF exact_regexp_query_fields(1,2) nb [unfolded Q_def]]
  have s5: "forward_scan literal_engine (RegExpQuery Q) S 5 10005 = [\<lparr>from_pos = 6, to_pos = 8\<rparr>]"
    unfolding Q_def S_def tail by code_simp
  have s0: "forward_scan literal_engine (RegExpQuery Q) S 0 10005 = [\<lparr>from_pos = 6, to_pos = 8\<rparr>]"
    unfolding Q_def S_def tail by code_simp
  note f5 = regexp_scan_via_forward [OF s5]
  note f0 = regexp_scan_via_forward [OF s0]
  have rej: "\<not> chunk_accepted literal_engine Q S 0 10005 5"
    using f5 by (simp add: chunk_accepted_def)
  have acc: "chunk_accepted literal_engine Q S 0 10005 0"
    using f0 by (simp add: chunk_accepted_def)
  have "RegExpQuery_prevMatchInRange literal_engine Q S 0 10005
      = (Some (last (regexp_scan literal_engine Q S 0 10005)), [(5, 10005), (0, 10005)])"
    unfolding RegExpQuery_prevMatchInRange_def
    by (subst RegExp_loop_step, simp add: chunk_start_def ChunkSize_def rej)
       (subst RegExp_loop_step, simp add: chunk_start_def ChunkSize_def acc)
  then have v: "cut (RegExpQuery_prevMatchInRange literal_engine Q S 0 10005)
      = (Some \<lparr>from_pos = 6, to_pos = 8\<rparr>, [(5, 10005), (0, 10005)])"
    using f0 by (simp add: cut_def)
  from prevMatchInRange_accepts [where engine = literal_engine and sp = Q and st = S
      and lo = 0 and hi = 10005] f5 v
  show ?thesis unfolding Q_def S_def by (simp add: cut_def split: prod.splits)
qed

subsection \<open>The chunks of the backward search\<close>








subsection \<open>prevMatch\<close>






subsection \<open>Chunks scanned on long documents\<close>









subsection \<open>Backward search against a scan of the whole range\<close>



subsection \<open>Invalid queries\<close>




subsection \<open>The matches of a non-overlapping scan\<close>

lemma find_upt_least: "find P [a ..< b] = Some p \<Longrightarrow> a \<le> j \<Longrightarrow> j < p \<Longrightarrow> \<not> P j"
proof -
  assume f: "find P [a ..< b] = Some p" and j: "a \<le> j" "j < p"
  from f obtain i where i: "i < b - a" "p = a + i" "\<forall>k<i. \<not> P (a + k)"
    by (auto simp: find_Some_iff)
  with j show "\<not> P j" using i(3) [rule_format, of "j - a"] by auto
qed

lemma next_match_cases:
  assumes "\<not> sc_done c"
  obtains (none) "sc_done (next_match c)"
      "\<And>p. max (sc_pos c) (to_pos (sc_value c)) \<le> p \<Longrightarrow> \<not> matches_at c p"
    | (some) p where "next_match c = c\<lparr>sc_pos := Suc p, sc_value := mk c p\<rparr>"
      "matches_at c p" "max (sc_pos c) (to_pos (sc_value c)) \<le> p"
      "\<And>j. max (sc_pos c) (to_pos (sc_value c)) \<le> j \<Longrightarrow> j < p \<Longrightarrow> \<not> matches_at c j"
proof (cases "find (matches_at c) [max (sc_pos c) (to_pos (sc_value c)) ..< Suc (sc_to c)]")
  case None
  have nm: "\<not> matches_at c p" if "max (sc_pos c) (to_pos (sc_value c)) \<le> p" for p
  proof
    assume m: "matches_at c p"
    with matches_at_bound [OF m] that None show False
      by (auto simp: find_None_iff)
  qed
  have d: "sc_done (next_match c)"
    using None assms by (simp add: next_match_def nextOverlapping_def)
  show ?thesis using none [OF d nm] .
next
  case (Some p)
  note fs = find_upt_Some [OF Some]
  have "next_match c = c\<lparr>sc_pos := Suc p, sc_value := mk c p\<rparr>"
    using Some assms by (simp add: next_match_def nextOverlapping_def mk_def)
  moreover have "\<not> matches_at c j"
    if "max (sc_pos c) (to_pos (sc_value c)) \<le> j" "j < p" for j
    using find_upt_least [OF Some that] .
  ultimately show ?thesis using fs by (intro some [of p]) auto
qed

lemma drain_next_props:
  assumes "\<not> sc_done c"
  shows "(\<forall>m \<in> set (drain_next c).
            matches_at c (from_pos m) \<and> to_pos m = from_pos m + length (sc_query c) \<and>
            max (sc_pos c) (to_pos (sc_value c)) \<le> from_pos m) \<and>
         sorted_wrt (\<lambda>m m'. to_pos m \<le> from_pos m') (drain_next c) \<and>
         (\<forall>p. max (sc_pos c) (to_pos (sc_value c)) \<le> p \<and> matches_at c p \<longrightarrow>
            (\<exists>m \<in> set (drain_next c). from_pos m \<le> p \<and> p < to_pos m))"
  using assms
proof (induction c rule: drain_next.induct)
  case (1 c)
  from "1.prems" show ?case
  proof (cases c rule: next_match_cases)
    case none
    then show ?thesis by (simp add: drain_next_unfold)
  next
    case (some p)
    let ?c' = "c\<lparr>sc_pos := Suc p, sc_value := mk c p\<rparr>"
    have nd: "\<not> sc_done (next_match c)" using some(1) "1.prems" by simp
    have "sc_query c \<noteq> []" using some(2) by (simp add: matches_at_def)
    then have L: "0 < length (sc_query c)" by simp
    have a': "max (sc_pos ?c') (to_pos (sc_value ?c')) = p + length (sc_query c)"
      using L by (simp add: mk_def max_def del: length_greater_0_conv)
    note ih = "1.IH" [OF refl nd nd, unfolded some(1) a', simplified]
    have dn: "drain_next c = mk c p # drain_next ?c'"
      using nd some(1) by (simp add: drain_next_unfold)
    have p1: "\<forall>m \<in> set (drain_next c).
            matches_at c (from_pos m) \<and> to_pos m = from_pos m + length (sc_query c) \<and>
            max (sc_pos c) (to_pos (sc_value c)) \<le> from_pos m"
      unfolding dn using ih some(2,3) by (auto simp: mk_def)
    have p2: "sorted_wrt (\<lambda>m m'. to_pos m \<le> from_pos m') (drain_next c)"
      unfolding dn using ih by (auto simp: mk_def)
    have p3: "\<exists>m \<in> set (drain_next c). from_pos m \<le> q \<and> q < to_pos m"
      if "max (sc_pos c) (to_pos (sc_value c)) \<le> q" "matches_at c q" for q
    proof (cases "q < p + length (sc_query c)")
      case True
      moreover have "p \<le> q" using some(4) [of q] that by (cases "q < p") auto
      ultimately show ?thesis unfolding dn by (auto simp: mk_def)
    next
      case False
      with ih that(2) obtain m where "m \<in> set (drain_next ?c')" "from_pos m \<le> q" "q < to_pos m"
        by (auto simp: not_less)
      then show ?thesis unfolding dn by auto
    qed
    from p1 p2 p3 show ?thesis by blast
  qed
qed

lemma all_matches_string_props:
  "(\<forall>m \<in> set (all_matches e (StringQuery sp) st).
      occurs sp st (length (doc st)) (from_pos m) \<and> to_pos m = from_pos m + pattern_length sp) \<and>
   sorted_wrt (\<lambda>m m'. to_pos m \<le> from_pos m') (all_matches e (StringQuery sp) st) \<and>
   (\<forall>p. occurs sp st (length (doc st)) p \<longrightarrow>
      (\<exists>m \<in> set (all_matches e (StringQuery sp) st). from_pos m \<le> p \<and> p < to_pos m))"
proof -
  let ?c = "stringCursor sp st 0 (length (doc st))"
  note p = drain_next_props [OF stringCursor_fields(3), of sp st 0 "length (doc st)"]
  have a0: "max (sc_pos ?c) (to_pos (sc_value ?c)) = 0" by (simp add: stringCursor_fields)
  have ma: "matches_at ?c = occurs sp st (length (doc st))"
    by (simp add: fun_eq_iff matches_at_stringCursor)
  note p1 = p [THEN conjunct1, rule_format]
  note p2 = p [THEN conjunct2, THEN conjunct1]
  note p3 = p [THEN conjunct2, THEN conjunct2, rule_format]
  show ?thesis
    unfolding all_matches.simps
  proof (intro conjI ballI allI impI)
    fix m assume "m \<in> set (drain_next ?c)"
    from p1 [OF this]
    show "occurs sp st (length (doc st)) (from_pos m)"
      "to_pos m = from_pos m + pattern_length sp"
      by (simp_all add: ma stringCursor_fields(4))
  next
    show "sorted_wrt (\<lambda>m m'. to_pos m \<le> from_pos m') (drain_next ?c)" by (rule p2)
  next
    fix q assume "occurs sp st (length (doc st)) q"
    then have "max (sc_pos ?c) (to_pos (sc_value ?c)) \<le> q \<and> matches_at ?c q"
      by (simp add: a0 ma)
    from p3 [OF this]
    show "\<exists>m \<in> set (drain_next ?c). from_pos m \<le> q \<and> q < to_pos m" .
  qed
qed


lemma occurs_plain:
  "caseSensitive sp \<Longrightarrow> \<not> wholeWord sp \<Longrightarrow>
   occurs sp st (length (doc st)) p \<longleftrightarrow>
     unquoted sp \<noteq> [] \<and> p + length (unquoted sp) \<le> length (doc st) \<and>
     sliceString (doc st) p (p + length (unquoted sp)) = unquoted sp"
  by (simp add: occurs_def Let_def)

text \<open>
  C2 (as stated): in the document aaa the pattern aa occurs at the offsets 0 and 1, and
  \<open>matchAll\<close> with a limit of 10 returns the match at offset 0 alone.
\<close>

theorem matchAll_every_offset_counterexample:
  "fst (matchAll no_engine (StringQuery (exact_query ''aa'')) (state_of ''aaa'') 10)
     = Some [\<lparr>from_pos = 0, to_pos = 2\<rparr>] \<and>
   unquoted (exact_query ''aa'') = ''aa'' \<and>
   sliceString (doc (state_of ''aaa'')) 0 (0 + length ''aa'') = ''aa'' \<and>
   sliceString (doc (state_of ''aaa'')) 1 (1 + length ''aa'') = ''aa''"
  by code_simp

text \<open>
  C2 (amended). For a literal query \<open>matchAll\<close> with a limit that is not below the number
  of matches of its scan returns the matches of one left-to-right scan that goes on behind
  the end of each match: every match returned is an occurrence of the pattern's length,
  the matches are in strictly ascending order and do not overlap, and every occurrence in
  the document begins within a match returned. So when no two occurrences overlap, the
  starts of the matches returned are exactly the offsets of the occurrences. An
  occurrence is an offset where the text of the pattern's length equals the unquoted
  pattern, after case folding of both unless the query is case-sensitive, and where the
  whole-word test holds when the query asks for whole words.
\<close>

theorem matchAll_literal_scan:
  "(length (all_matches engine (StringQuery sp) st) \<le> limit \<longrightarrow>
      fst (matchAll engine (StringQuery sp) st limit)
        = Some (all_matches engine (StringQuery sp) st)) \<and>
   (\<forall>m \<in> set (all_matches engine (StringQuery sp) st).
      occurs sp st (length (doc st)) (from_pos m) \<and>
      to_pos m = from_pos m + pattern_length sp) \<and>
   sorted_wrt (\<lambda>m m'. to_pos m \<le> from_pos m') (all_matches engine (StringQuery sp) st) \<and>
   sorted_wrt (<) (map from_pos (all_matches engine (StringQuery sp) st)) \<and>
   (\<forall>p. occurs sp st (length (doc st)) p \<longrightarrow>
      (\<exists>m \<in> set (all_matches engine (StringQuery sp) st). from_pos m \<le> p \<and> p < to_pos m)) \<and>
   ((\<forall>p p'. occurs sp st (length (doc st)) p \<and> occurs sp st (length (doc st)) p' \<and> p < p'
        \<longrightarrow> p + pattern_length sp \<le> p') \<longrightarrow>
      map from_pos (all_matches engine (StringQuery sp) st)
        = filter (occurs sp st (length (doc st))) [0 ..< length (doc st)]) \<and>
   (caseSensitive sp \<and> \<not> wholeWord sp \<longrightarrow>
      (occurs sp st (length (doc st)) p \<longleftrightarrow>
         unquoted sp \<noteq> [] \<and> p + length (unquoted sp) \<le> length (doc st) \<and>
         sliceString (doc st) p (p + length (unquoted sp)) = unquoted sp))"
proof -
  let ?ms = "all_matches engine (StringQuery sp) st"
  let ?occ = "occurs sp st (length (doc st))"
  note props = all_matches_string_props [of engine sp st]
  note p1 = props [THEN conjunct1, rule_format]
  note p2 = props [THEN conjunct2, THEN conjunct1]
  note p3 = props [THEN conjunct2, THEN conjunct2, rule_format]
  have a: "length ?ms \<le> limit \<longrightarrow> fst (matchAll engine (StringQuery sp) st limit) = Some ?ms"
    using matchAll_limit_eq [of engine "StringQuery sp" st limit] by simp
  have lt: "from_pos m < to_pos m" if "m \<in> set ?ms" for m
    using p1 [OF that] occurs_bound [of sp st "length (doc st)" "from_pos m"] by simp
  have b: "sorted_wrt (<) (map from_pos ?ms)"
    unfolding sorted_wrt_map
    by (rule sorted_wrt_mono_rel [OF _ p2]) (use lt in fastforce)
  have c: "map from_pos ?ms = filter ?occ [0 ..< length (doc st)]"
    if sep: "\<forall>p p'. ?occ p \<and> ?occ p' \<and> p < p' \<longrightarrow> p + pattern_length sp \<le> p'"
  proof (rule sorted_distinct_set_unique)
    show "sorted (map from_pos ?ms)" "distinct (map from_pos ?ms)"
      using b by (simp_all add: strict_sorted_iff)
    show "sorted (filter ?occ [0 ..< length (doc st)])" by (simp add: sorted_wrt_filter)
    show "distinct (filter ?occ [0 ..< length (doc st)])" by simp
    show "set (map from_pos ?ms) = set (filter ?occ [0 ..< length (doc st)])"
    proof (intro equalityI subsetI)
      fix x assume "x \<in> set (map from_pos ?ms)"
      then obtain m where m: "m \<in> set ?ms" "x = from_pos m" by auto
      from p1 [OF m(1)] occurs_bound [of sp st "length (doc st)" x] m(2)
      show "x \<in> set (filter ?occ [0 ..< length (doc st)])" by simp
    next
      fix x assume "x \<in> set (filter ?occ [0 ..< length (doc st)])"
      then have x: "?occ x" by simp
      from p3 [OF x] obtain m where m: "m \<in> set ?ms" "from_pos m \<le> x" "x < to_pos m" by blast
      note pm = p1 [OF m(1)]
      have "from_pos m = x"
      proof (rule ccontr)
        assume "from_pos m \<noteq> x"
        with m(2) have "from_pos m < x" by simp
        with sep pm x have "from_pos m + pattern_length sp \<le> x" by blast
        with pm m(3) show False by simp
      qed
      with m(1) show "x \<in> set (map from_pos ?ms)" by force
    qed
  qed
  from a p1 p2 b p3 c occurs_plain [of sp st p] show ?thesis by blast
qed


theorem matchAll_literal_scan_witness:
  "all_matches no_engine (StringQuery (exact_query ''bc'')) (state_of ''abcabc'')
     = [\<lparr>from_pos = 1, to_pos = 3\<rparr>, \<lparr>from_pos = 4, to_pos = 6\<rparr>] \<and>
   fst (matchAll no_engine (StringQuery (exact_query ''bc'')) (state_of ''abcabc'') 2)
     = Some [\<lparr>from_pos = 1, to_pos = 3\<rparr>, \<lparr>from_pos = 4, to_pos = 6\<rparr>] \<and>
   filter (occurs (exact_query ''bc'') (state_of ''abcabc'') 6) [0 ..< 6] = [1, 4] \<and>
   pattern_length (exact_query ''bc'') = 2"
proof -
  define Q where "Q = exact_query ''bc''"
  define S where "S = state_of ''abcabc''"
  have len: "length (doc S) = 6" by (simp add: S_def)
  have a: "all_matches no_engine (StringQuery Q) S
     = [\<lparr>from_pos = 1, to_pos = 3\<rparr>, \<lparr>from_pos = 4, to_pos = 6\<rparr>]"
    unfolding Q_def S_def by code_simp
  have f: "filter (occurs Q S 6) [0 ..< 6] = [1, 4]"
    unfolding Q_def S_def by code_simp
  have pl: "pattern_length Q = 2" unfolding Q_def by code_simp
  have occ: "p = 1 \<or> p = 4" if "occurs Q S 6 p" for p
  proof -
    from occurs_bound [OF that] that have "p \<in> set (filter (occurs Q S 6) [0 ..< 6])" by simp
    then show ?thesis unfolding f by simp
  qed
  have sep: "\<forall>p p'. occurs Q S (length (doc S)) p \<and> occurs Q S (length (doc S)) p' \<and> p < p'
      \<longrightarrow> p + pattern_length Q \<le> p'"
    unfolding len pl
  proof (intro allI impI)
    fix p p' assume "occurs Q S 6 p \<and> occurs Q S 6 p' \<and> p < p'"
    then show "p + 2 \<le> p'" using occ [of p] occ [of p'] by auto
  qed
  note t = matchAll_literal_scan [of no_engine Q S 2 0]
  from t [THEN conjunct1] a have m: "fst (matchAll no_engine (StringQuery Q) S 2)
     = Some [\<lparr>from_pos = 1, to_pos = 3\<rparr>, \<lparr>from_pos = 4, to_pos = 6\<rparr>]"
    by simp
  from t sep have "map from_pos (all_matches no_engine (StringQuery Q) S)
      = filter (occurs Q S (length (doc S))) [0 ..< length (doc S)]"
    by (elim conjE) (erule (1) mp)
  with a m f pl show ?thesis unfolding Q_def S_def by simp
qed

end
